theory Spec2Isabelle
  imports Main "HOL-Library.Multiset"
begin

section \<open>The board engine of the 1024-ish game (src/main.cpp)\<close>

text \<open>
  The class \<open>Board\<close> holds \<open>int grid[BOARD_SIZE][BOARD_SIZE]\<close> and \<open>int winTarget\<close>.
  The grid is a list of rows, each a list of cells; the fixed array shape is the predicate
  \<open>wf_grid\<close>. Cells are C++ \<open>int\<close>s. The only arithmetic on them is the doubling of a
  merge, \<open>newRow.back() *= 2\<close>. The definitions named as the source's functions double in
  the mathematical integers, which is the program on every grid whose cells stay below
  \<open>2 ^ 30\<close> in absolute value. The definitions with the suffix \<open>32\<close>, further down, are the
  same functions with the doubling reduced to the 32-bit range; the reachable states, and
  what holds of all of them, are stated for these.
\<close>

definition BOARD_SIZE :: nat where
  "BOARD_SIZE = 4"

type_synonym grid = "int list list"

record board =
  grid :: "int list list"
  winTarget :: int

definition wf_grid :: "grid \<Rightarrow> bool" where
  "wf_grid g = (length g = BOARD_SIZE \<and> list_all (\<lambda>row. length row = BOARD_SIZE) g)"

subsection \<open>The random source\<close>

text \<open>
  Modelled from the spec: \<open>chooseRandomNumber\<close> is declared in mersenne-twister.h, which is
  not among the sources. The spec describes it as \<open>nextInRange(low, high)\<close>, returning an
  integer of the closed interval from \<open>low\<close> to \<open>high\<close>, deterministic given the state of
  the generator. The state of the generator is the infinite sequence of raw outputs still to
  come; a draw consumes the first of them and reduces it into the interval.
\<close>

type_synonym rng = "nat \<Rightarrow> nat"

definition chooseRandomNumber :: "int \<Rightarrow> int \<Rightarrow> rng \<Rightarrow> int \<times> rng" where
  "chooseRandomNumber lo hi r = (lo + int (r 0 mod nat (hi + 1 - lo)), \<lambda>n. r (Suc n))"

subsection \<open>Spawning a tile\<close>

definition getRandomStartingNumber :: "string \<Rightarrow> rng \<Rightarrow> int \<times> rng" where
  "getRandomStartingNumber mode r =
     (let (randomValue, r') = chooseRandomNumber 1 10 r
      in (if mode = ''E'' then (if randomValue \<le> 5 then 2 else 4)
          else if mode = ''M'' then (if randomValue \<le> 7 then 2 else 4)
          else (if randomValue \<le> 9 then 2 else 4), r'))"

definition emptySquares :: "grid \<Rightarrow> (nat \<times> nat) list" where
  "emptySquares g =
     concat (map (\<lambda>i. concat (map (\<lambda>j. if g ! i ! j = 0 then [(i, j)] else [])
                                    [0..<BOARD_SIZE]))
                 [0..<BOARD_SIZE])"

definition addRandomPiece :: "board \<times> rng \<Rightarrow> board \<times> rng" where
  "addRandomPiece = (\<lambda>(b, r).
     let es = emptySquares (grid b) in
     if es = [] then (b, r)
     else
       let (randomSquare, r1) = chooseRandomNumber 0 (int (length es) - 1) r;
           (row, col) = es ! nat randomSquare;
           (v, r2) = getRandomStartingNumber
                       (if winTarget b = 256 then ''E''
                        else if winTarget b = 512 then ''M'' else ''H'') r1
       in (b\<lparr>grid := (grid b)[row := (grid b ! row)[col := v]]\<rparr>, r2))"

subsection \<open>Sliding to the left\<close>

text \<open>One iteration of the inner loop that builds \<open>newRow\<close> from the cell \<open>v\<close>.\<close>

definition combineStep :: "int \<Rightarrow> int list \<times> bool \<Rightarrow> int list \<times> bool" where
  "combineStep v = (\<lambda>(newRow, moved).
     if v \<noteq> 0 then
       (if newRow \<noteq> [] \<and> last newRow = v
        then (butlast newRow @ [last newRow * 2], True)
        else (newRow @ [v], moved))
     else (newRow, moved))"

text \<open>The loop \<open>while (newRow.size() < BOARD_SIZE) newRow.push_back(0)\<close>.\<close>

function pad :: "int list \<Rightarrow> int list" where
  "pad newRow = (if length newRow < BOARD_SIZE then pad (newRow @ [0]) else newRow)"
  by pat_completeness auto
termination
  by (relation "measure (\<lambda>newRow. BOARD_SIZE - length newRow)") auto

declare pad.simps [simp del]

text \<open>One iteration of the loop that writes \<open>newRow\<close> back and records a change.\<close>

definition writeStep :: "int list \<Rightarrow> nat \<Rightarrow> int list \<times> bool \<Rightarrow> int list \<times> bool" where
  "writeStep newRow col = (\<lambda>(row, moved).
     if row ! col \<noteq> newRow ! col then (row[col := newRow ! col], True) else (row, moved))"

text \<open>The body of the loop over the rows, on one row of the grid.\<close>

definition slideRow :: "int list \<Rightarrow> bool \<Rightarrow> int list \<times> bool" where
  "slideRow row moved =
     (let (newRow, moved1) = fold (\<lambda>col. combineStep (row ! col)) [0..<BOARD_SIZE] ([], moved)
      in fold (writeStep (pad newRow)) [0..<BOARD_SIZE] (row, moved1))"

definition slidePiecesLeft :: "grid \<Rightarrow> grid \<times> bool" where
  "slidePiecesLeft g =
     fold (\<lambda>row (g, moved). let (r', moved') = slideRow (g ! row) moved in (g[row := r'], moved'))
          [0..<BOARD_SIZE] (g, False)"

subsection \<open>Rotation and the other three directions\<close>

text \<open>
  The first loop nest scatters the grid into \<open>temp\<close>, which it overwrites completely (so what
  \<open>temp\<close> holds before does not matter); the second copies \<open>temp\<close> back cell by cell.
\<close>

definition rotateStep :: "bool \<Rightarrow> grid \<Rightarrow> nat \<Rightarrow> nat \<Rightarrow> grid \<Rightarrow> grid" where
  "rotateStep counterClockwise g i j temp =
     (if counterClockwise
      then temp[BOARD_SIZE - 1 - j := (temp ! (BOARD_SIZE - 1 - j))[i := g ! i ! j]]
      else temp[j := (temp ! j)[BOARD_SIZE - 1 - i := g ! i ! j]])"

definition rotateBoard :: "bool \<Rightarrow> grid \<Rightarrow> grid" where
  "rotateBoard counterClockwise g =
     (let temp = fold (\<lambda>i. fold (rotateStep counterClockwise g i) [0..<BOARD_SIZE])
                      [0..<BOARD_SIZE] (replicate BOARD_SIZE (replicate BOARD_SIZE 0))
      in fold (\<lambda>i. fold (\<lambda>j g'. g'[i := (g' ! i)[j := temp ! i ! j]]) [0..<BOARD_SIZE])
              [0..<BOARD_SIZE] g)"

definition slidePiecesRight :: "grid \<Rightarrow> grid \<times> bool" where
  "slidePiecesRight g =
     (let (g', moved) = slidePiecesLeft (rotateBoard True (rotateBoard True g))
      in (rotateBoard True (rotateBoard True g'), moved))"

definition slidePiecesUp :: "grid \<Rightarrow> grid \<times> bool" where
  "slidePiecesUp g =
     (let (g', moved) = slidePiecesLeft (rotateBoard True g)
      in (rotateBoard False g', moved))"

definition slidePiecesDown :: "grid \<Rightarrow> grid \<times> bool" where
  "slidePiecesDown g =
     (let (g', moved) = slidePiecesLeft (rotateBoard False g)
      in (rotateBoard True g', moved))"

subsection \<open>Construction, moves and the end of the game\<close>

definition Board :: "string \<Rightarrow> rng \<Rightarrow> board \<times> rng" where
  "Board mode r =
     addRandomPiece (addRandomPiece
       (\<lparr>grid = replicate BOARD_SIZE (replicate BOARD_SIZE 0),
         winTarget = (if mode = ''E'' then 256 else if mode = ''M'' then 512 else 1024)\<rparr>, r))"

text \<open>
  \<open>std::toupper\<close> in the default locale: the letters a to z go to A to Z, and every other
  character is returned as it is.
\<close>

definition toupper :: "char \<Rightarrow> char" where
  "toupper c = (let n = (of_char c :: nat) in
                if 97 \<le> n \<and> n \<le> 122 then char_of (n - 32) else c)"

text \<open>The \<open>switch\<close> of \<open>move\<close>; \<open>None\<close> is its \<open>default\<close> case.\<close>

definition slideFor :: "char \<Rightarrow> grid \<Rightarrow> (grid \<times> bool) option" where
  "slideFor direction g =
     (let u = toupper direction in
      if u = CHR ''L'' then Some (slidePiecesLeft g)
      else if u = CHR ''R'' then Some (slidePiecesRight g)
      else if u = CHR ''U'' then Some (slidePiecesUp g)
      else if u = CHR ''D'' then Some (slidePiecesDown g)
      else None)"

definition move :: "char \<Rightarrow> board \<times> rng \<Rightarrow> bool \<times> board \<times> rng" where
  "move direction = (\<lambda>(b, r).
     case slideFor direction (grid b) of
       None \<Rightarrow> (False, b, r)
     | Some (g', moved) \<Rightarrow>
         (if moved then (let (b', r') = addRandomPiece (b\<lparr>grid := g'\<rparr>, r) in (moved, b', r'))
          else (moved, b\<lparr>grid := g'\<rparr>, r)))"

definition isGameOver :: "grid \<Rightarrow> bool" where
  "isGameOver g =
     list_all (\<lambda>i. list_all (\<lambda>j.
         \<not> (g ! i ! j = 0)
         \<and> \<not> (j < BOARD_SIZE - 1 \<and> g ! i ! j = g ! i ! (j + 1))
         \<and> \<not> (i < BOARD_SIZE - 1 \<and> g ! i ! j = g ! (i + 1) ! j))
       [0..<BOARD_SIZE]) [0..<BOARD_SIZE]"

definition checkWin :: "board \<Rightarrow> bool" where
  "checkWin b =
     list_ex (\<lambda>i. list_ex (\<lambda>j. grid b ! i ! j = winTarget b) [0..<BOARD_SIZE])
             [0..<BOARD_SIZE]"

subsection \<open>The moves on 32-bit integers\<close>

text \<open>
  \<open>int32\<close> reduces an integer to the range of a 32-bit two's-complement \<open>int\<close>, which is
  what the doubling of line 59 leaves in the cell when the doubled value does not fit (the
  language leaves that case undefined; the usual targets wrap around).
  \<open>combineStep32\<close> is \<open>combineStep\<close> with the doubling reduced by \<open>int32\<close>, and the other
  definitions are the functions above built on it; no other function does arithmetic on a
  cell.
\<close>

definition int32 :: "int \<Rightarrow> int" where
  "int32 v = (v + 2147483648) mod 4294967296 - 2147483648"

definition combineStep32 :: "int \<Rightarrow> int list \<times> bool \<Rightarrow> int list \<times> bool" where
  "combineStep32 v = (\<lambda>(newRow, moved).
     if v \<noteq> 0 then
       (if newRow \<noteq> [] \<and> last newRow = v
        then (butlast newRow @ [int32 (last newRow * 2)], True)
        else (newRow @ [v], moved))
     else (newRow, moved))"

definition slideRow32 :: "int list \<Rightarrow> bool \<Rightarrow> int list \<times> bool" where
  "slideRow32 row moved =
     (let (newRow, moved1) =
            fold (\<lambda>col. combineStep32 (row ! col)) [0..<BOARD_SIZE] ([], moved)
      in fold (writeStep (pad newRow)) [0..<BOARD_SIZE] (row, moved1))"

definition slidePiecesLeft32 :: "grid \<Rightarrow> grid \<times> bool" where
  "slidePiecesLeft32 g =
     fold (\<lambda>row (g, moved).
             let (r', moved') = slideRow32 (g ! row) moved in (g[row := r'], moved'))
          [0..<BOARD_SIZE] (g, False)"

definition slidePiecesRight32 :: "grid \<Rightarrow> grid \<times> bool" where
  "slidePiecesRight32 g =
     (let (g', moved) = slidePiecesLeft32 (rotateBoard True (rotateBoard True g))
      in (rotateBoard True (rotateBoard True g'), moved))"

definition slidePiecesUp32 :: "grid \<Rightarrow> grid \<times> bool" where
  "slidePiecesUp32 g =
     (let (g', moved) = slidePiecesLeft32 (rotateBoard True g)
      in (rotateBoard False g', moved))"

definition slidePiecesDown32 :: "grid \<Rightarrow> grid \<times> bool" where
  "slidePiecesDown32 g =
     (let (g', moved) = slidePiecesLeft32 (rotateBoard False g)
      in (rotateBoard True g', moved))"

definition slideFor32 :: "char \<Rightarrow> grid \<Rightarrow> (grid \<times> bool) option" where
  "slideFor32 direction g =
     (let u = toupper direction in
      if u = CHR ''L'' then Some (slidePiecesLeft32 g)
      else if u = CHR ''R'' then Some (slidePiecesRight32 g)
      else if u = CHR ''U'' then Some (slidePiecesUp32 g)
      else if u = CHR ''D'' then Some (slidePiecesDown32 g)
      else None)"

definition move32 :: "char \<Rightarrow> board \<times> rng \<Rightarrow> bool \<times> board \<times> rng" where
  "move32 direction = (\<lambda>(b, r).
     case slideFor32 direction (grid b) of
       None \<Rightarrow> (False, b, r)
     | Some (g', moved) \<Rightarrow>
         (if moved then (let (b', r') = addRandomPiece (b\<lparr>grid := g'\<rparr>, r) in (moved, b', r'))
          else (moved, b\<lparr>grid := g'\<rparr>, r)))"

subsection \<open>Auxiliary notions for the proofs\<close>

text \<open>
  \<open>collapse row\<close> is the \<open>newRow\<close> that the first inner loop of \<open>slidePiecesLeft\<close>
  builds from a row, \<open>rowLeft row\<close> is the row as \<open>slidePiecesLeft\<close> leaves it, and
  \<open>nz\<close> keeps the non-zero cells.
\<close>

definition collapse :: "int list \<Rightarrow> int list" where
  "collapse row = fst (fold combineStep row ([], False))"

definition rowLeft :: "int list \<Rightarrow> int list" where
  "rowLeft row = fst (slideRow row False)"

abbreviation nz :: "int list \<Rightarrow> int list" where
  "nz xs \<equiv> filter (\<lambda>v. v \<noteq> 0) xs"

subsection \<open>The invariant of the data model and the reachable states\<close>

text \<open>A cell value of the data model: 0 or a positive power of 2.\<close>

definition tile :: "int \<Rightarrow> bool" where
  "tile v = (v = 0 \<or> (\<exists>k. 1 \<le> k \<and> v = 2 ^ k))"

text \<open>
  \<open>countGe e xs\<close> counts the cells that are at least \<open>2 ^ e\<close>. A grid is \<open>bounded\<close> when,
  for every \<open>e\<close>, at most \<open>18 - e\<close> of its cells are at least \<open>2 ^ e\<close>: a cell of \<open>2 ^ 17\<close>
  at most, at most two cells of \<open>2 ^ 16\<close> or more, and so on. This is what makes the invariant
  inductive for the 32-bit program: it keeps every doubling far from the overflow.
\<close>

definition countGe :: "nat \<Rightarrow> int list \<Rightarrow> nat" where
  "countGe e xs = length (filter (\<lambda>v. 2 ^ e \<le> v) xs)"

definition bounded :: "grid \<Rightarrow> bool" where
  "bounded g = (\<forall>e. countGe e (concat g) \<le> 18 - e)"

definition board_inv :: "string \<Rightarrow> board \<Rightarrow> bool" where
  "board_inv mode b =
     (wf_grid (grid b) \<and> list_all tile (concat (grid b)) \<and> bounded (grid b)
      \<and> winTarget b = (if mode = ''E'' then 256 else if mode = ''M'' then 512 else 1024))"

text \<open>
  The states of a board constructed with \<open>mode\<close>, together with the random source: the
  constructor gives the first, and every call of \<open>move\<close>, with any character and on 32-bit
  cells, gives the next. The private \<open>addRandomPiece\<close> is a step of its own, so that the
  states include what any spawn produces.
\<close>

inductive reachable :: "string \<Rightarrow> board \<times> rng \<Rightarrow> bool" for mode :: string where
  constructed: "reachable mode (Board mode r)"
| moved: "reachable mode s \<Longrightarrow> reachable mode (snd (move32 d s))"
| spawned: "reachable mode s \<Longrightarrow> reachable mode (addRandomPiece s)"

text \<open>
  \<open>merges M N\<close>: the multiset \<open>N\<close> comes from \<open>M\<close> by replacing, any number of times, two
  equal values by their double.
\<close>

inductive merges :: "int multiset \<Rightarrow> int multiset \<Rightarrow> bool" where
  same: "merges M M"
| merge: "merges M (add_mset x (add_mset x N)) \<Longrightarrow> merges M (add_mset (x * 2) N)"

subsection \<open>The merge rule as the specification words it\<close>




subsection \<open>Equal neighbours\<close>

text \<open>
  Two equal non-zero cells next to each other in a row, and in a column, of the grid.
\<close>

definition horizontalPair :: "grid \<Rightarrow> bool" where
  "horizontalPair g =
     list_ex (\<lambda>i. list_ex (\<lambda>j. g ! i ! j \<noteq> 0 \<and> g ! i ! j = g ! i ! (j + 1))
                          [0..<BOARD_SIZE - 1])
             [0..<BOARD_SIZE]"

definition verticalPair :: "grid \<Rightarrow> bool" where
  "verticalPair g =
     list_ex (\<lambda>i. list_ex (\<lambda>j. g ! i ! j \<noteq> 0 \<and> g ! i ! j = g ! (i + 1) ! j)
                          [0..<BOARD_SIZE])
             [0..<BOARD_SIZE - 1]"

text \<open>
  A line of four cells, read in one sense and in the other, that no slide along it changes:
  all four are empty, or none is empty and no two neighbours are equal.
\<close>

definition stuckLine :: "int \<Rightarrow> int \<Rightarrow> int \<Rightarrow> int \<Rightarrow> bool" where
  "stuckLine a b c d =
     ((a = 0 \<and> b = 0 \<and> c = 0 \<and> d = 0)
      \<or> (a \<noteq> 0 \<and> b \<noteq> 0 \<and> c \<noteq> 0 \<and> d \<noteq> 0 \<and> a \<noteq> b \<and> b \<noteq> c \<and> c \<noteq> d))"

text \<open>Every cell is non-negative and below \<open>2 ^ 18\<close>.\<close>

definition smallCells :: "grid \<Rightarrow> bool" where
  "smallCells g = (\<forall>v\<in>set (concat g). 0 \<le> v \<and> v < 2 ^ 18)"

section \<open>Properties of the slide to the left\<close>

lemma upt_BOARD_SIZE: "[0..<BOARD_SIZE] = [0, 1, 2, 3]"
  by (simp add: BOARD_SIZE_def upt_rec)

lemma length4: "length (xs :: 'a list) = 4 \<longleftrightarrow> (\<exists>a b c d. xs = [a, b, c, d])"
  by (auto simp: length_Suc_conv eval_nat_numeral)

lemma pad_eq: "pad xs = xs @ replicate (BOARD_SIZE - length xs) 0"
proof (induction xs rule: pad.induct)
  case (1 newRow)
  show ?case
  proof (cases "length newRow < BOARD_SIZE")
    case True
    then have "BOARD_SIZE - length newRow = Suc (BOARD_SIZE - length (newRow @ [0]))"
      by simp
    with True 1 show ?thesis
      by (subst pad.simps) (simp add: replicate_app_Cons_same)
  next
    case False
    then show ?thesis by (subst pad.simps) simp
  qed
qed

lemma combineStep_apply:
  "combineStep v (newRow, moved) =
     (if v \<noteq> 0 then
        (if newRow \<noteq> [] \<and> last newRow = v
         then (butlast newRow @ [last newRow * 2], True)
         else (newRow @ [v], moved))
      else (newRow, moved))"
  by (simp add: combineStep_def)

lemma combineStep_flag:
  "combineStep v (acc, m) = (fst (combineStep v (acc, False)), m \<or> snd (combineStep v (acc, False)))"
  by (simp add: combineStep_apply)

lemma fold_combineStep_flag:
  "fold combineStep xs (acc, m) =
     (fst (fold combineStep xs (acc, False)), m \<or> snd (fold combineStep xs (acc, False)))"
proof (induction xs arbitrary: acc m)
  case Nil
  show ?case by simp
next
  case (Cons x xs)
  obtain acc' k where s: "combineStep x (acc, False) = (acc', k)"
    by (cases "combineStep x (acc, False)")
  have sm: "combineStep x (acc, m) = (acc', m \<or> k)"
    using combineStep_flag [of x acc m] s by simp
  have "fold combineStep (x # xs) (acc, m) = fold combineStep xs (acc', m \<or> k)"
    by (simp add: sm)
  also have "\<dots> = (fst (fold combineStep xs (acc', False)),
                    (m \<or> k) \<or> snd (fold combineStep xs (acc', False)))"
    by (rule Cons.IH)
  finally have l: "fold combineStep (x # xs) (acc, m) =
      (fst (fold combineStep xs (acc', False)), (m \<or> k) \<or> snd (fold combineStep xs (acc', False)))" .
  have "fold combineStep (x # xs) (acc, False) = fold combineStep xs (acc', k)"
    by (simp add: s)
  also have "\<dots> = (fst (fold combineStep xs (acc', False)),
                    k \<or> snd (fold combineStep xs (acc', False)))"
    by (rule Cons.IH)
  finally have r: "fold combineStep (x # xs) (acc, False) =
      (fst (fold combineStep xs (acc', False)), k \<or> snd (fold combineStep xs (acc', False)))" .
  show ?case unfolding l r by simp
qed

lemma fold_combineStep_True: "snd (fold combineStep xs (acc, True))"
  by (subst fold_combineStep_flag) simp

text \<open>A merge happens exactly when two neighbours among the non-zero cells are equal.\<close>

lemma fold_combineStep_merged:
  "snd (fold combineStep xs (acc, False)) =
     (\<not> distinct_adj ((if acc = [] then [] else [last acc]) @ nz xs))"
proof (induction xs arbitrary: acc)
  case Nil
  show ?case by simp
next
  case (Cons x xs)
  show ?case
  proof (cases "x = 0")
    case True
    then show ?thesis using Cons.IH [of acc] by (simp add: combineStep_apply)
  next
    case False
    show ?thesis
    proof (cases "acc \<noteq> [] \<and> last acc = x")
      case True
      with False show ?thesis
        by (simp add: combineStep_apply fold_combineStep_True)
    next
      case nomerge: False
      with False have "fold combineStep (x # xs) (acc, False) = fold combineStep xs (acc @ [x], False)"
        by (auto simp add: combineStep_apply)
      then show ?thesis using Cons.IH [of "acc @ [x]"] False nomerge
        by auto
    qed
  qed
qed

lemma fold_combineStep_unmerged:
  "\<not> snd (fold combineStep xs (acc, False)) \<Longrightarrow>
     fst (fold combineStep xs (acc, False)) = acc @ nz xs"
proof (induction xs arbitrary: acc)
  case Nil
  show ?case by simp
next
  case (Cons x xs)
  show ?case
  proof (cases "x \<noteq> 0 \<and> acc \<noteq> [] \<and> last acc = x")
    case True
    with Cons.prems show ?thesis
      by (simp add: combineStep_apply fold_combineStep_True)
  next
    case False
    then have "combineStep x (acc, False) = (if x = 0 then acc else acc @ [x], False)"
      by (auto simp: combineStep_apply)
    with Cons show ?thesis by (cases "x = 0") auto
  qed
qed

lemma fold_combineStep_length:
  "length (fst (fold combineStep xs (acc, False)))
     + (if snd (fold combineStep xs (acc, False)) then 1 else 0)
   \<le> length acc + length (nz xs)"
proof (induction xs arbitrary: acc)
  case Nil
  show ?case by simp
next
  case (Cons x xs)
  show ?case
  proof (cases "x \<noteq> 0 \<and> acc \<noteq> [] \<and> last acc = x")
    case True
    then have "fold combineStep (x # xs) (acc, False)
                 = fold combineStep xs (butlast acc @ [last acc * 2], True)"
      by (simp add: combineStep_apply)
    moreover have "length (fst (fold combineStep xs (butlast acc @ [last acc * 2], False)))
            \<le> length (butlast acc @ [last acc * 2]) + length (nz xs)"
      using Cons.IH [of "butlast acc @ [last acc * 2]"] by (simp split: if_splits)
    ultimately show ?thesis using True
      by (subst fold_combineStep_flag) (simp add: fold_combineStep_flag [of xs _ True])
  next
    case False
    then have "combineStep x (acc, False) = (if x = 0 then acc else acc @ [x], False)"
      by (auto simp: combineStep_apply)
    then show ?thesis
      using Cons.IH [of acc] Cons.IH [of "acc @ [x]"] by (cases "x = 0") auto
  qed
qed

lemma fold_combineStep_nonzero:
  "0 \<notin> set acc \<Longrightarrow> 0 \<notin> set (fst (fold combineStep xs (acc, False)))"
proof (induction xs arbitrary: acc)
  case Nil
  then show ?case by simp
next
  case (Cons x xs)
  show ?case
  proof (cases "x \<noteq> 0 \<and> acc \<noteq> [] \<and> last acc = x")
    case True
    then have "fold combineStep (x # xs) (acc, False)
                 = fold combineStep xs (butlast acc @ [last acc * 2], True)"
      by (simp add: combineStep_apply)
    moreover have "0 \<notin> set (butlast acc @ [last acc * 2])"
      using Cons.prems True by (auto dest: in_set_butlastD)
    ultimately show ?thesis using Cons.IH [of "butlast acc @ [last acc * 2]"]
      by (simp add: fold_combineStep_flag [of xs _ True])
  next
    case False
    then have "combineStep x (acc, False) = (if x = 0 then acc else acc @ [x], False)"
      by (auto simp: combineStep_apply)
    then show ?thesis
      using Cons.IH [of acc] Cons.IH [of "acc @ [x]"] Cons.prems by (cases "x = 0") auto
  qed
qed

lemma fold_combineStep_nth:
  "length row = BOARD_SIZE \<Longrightarrow>
     fold (\<lambda>col. combineStep (row ! col)) [0..<BOARD_SIZE] s = fold combineStep row s"
  by (auto simp: BOARD_SIZE_def length4 upt_rec)

lemma fold_writeStep:
  "length row = BOARD_SIZE \<Longrightarrow> length newRow = BOARD_SIZE \<Longrightarrow>
     fold (writeStep newRow) [0..<BOARD_SIZE] (row, m) = (newRow, m \<or> row \<noteq> newRow)"
  by (auto simp: BOARD_SIZE_def length4 upt_rec writeStep_def)

lemma collapse_length: "length (collapse row) \<le> length (nz row)"
  using fold_combineStep_length [of row "[]"] by (simp add: collapse_def split: if_splits)

lemma collapse_length_row: "length (collapse row) \<le> length row"
  using collapse_length [of row] length_filter_le [of "\<lambda>v. v \<noteq> 0" row] by linarith

lemma collapse_nonzero: "0 \<notin> set (collapse row)"
  using fold_combineStep_nonzero [of "[]" row] by (simp add: collapse_def)

lemma nz_collapse: "nz (collapse row) = collapse row"
  using collapse_nonzero [of row] by (auto simp: filter_id_conv)

lemma length_pad: "length xs \<le> BOARD_SIZE \<Longrightarrow> length (pad xs) = BOARD_SIZE"
  by (simp add: pad_eq)

lemma nz_pad: "nz (pad xs) = nz xs"
  by (simp add: pad_eq)

lemma merged_changes:
  assumes "snd (fold combineStep row ([], False))"
  shows "pad (collapse row) \<noteq> row"
proof
  assume "pad (collapse row) = row"
  then have "nz row = collapse row"
    using nz_pad [of "collapse row"] nz_collapse [of row] by simp
  moreover have "length (collapse row) < length (nz row)"
    using fold_combineStep_length [of row "[]"] assms by (simp add: collapse_def)
  ultimately show False by simp
qed

lemma slideRow_eq:
  assumes "length row = BOARD_SIZE"
  shows "slideRow row m = (pad (collapse row), m \<or> pad (collapse row) \<noteq> row)"
proof -
  let ?k = "snd (fold combineStep row ([], False))"
  have f: "fold combineStep row ([], m) = (collapse row, m \<or> ?k)"
    by (subst fold_combineStep_flag) (simp add: collapse_def)
  have len: "length (pad (collapse row)) = BOARD_SIZE"
    using collapse_length_row [of row] assms by (simp add: length_pad)
  have "slideRow row m = (pad (collapse row), (m \<or> ?k) \<or> row \<noteq> pad (collapse row))"
    by (simp add: slideRow_def fold_combineStep_nth [OF assms] f fold_writeStep [OF assms len])
  moreover have "?k \<Longrightarrow> pad (collapse row) \<noteq> row"
    by (rule merged_changes)
  ultimately show ?thesis by auto
qed

lemma rowLeft_eq: "length row = BOARD_SIZE \<Longrightarrow> rowLeft row = pad (collapse row)"
  by (simp add: rowLeft_def slideRow_eq)

lemma length_rowLeft: "length row = BOARD_SIZE \<Longrightarrow> length (rowLeft row) = BOARD_SIZE"
  using collapse_length_row [of row] by (simp add: rowLeft_eq length_pad)

lemma slideRow_rowLeft:
  "length row = BOARD_SIZE \<Longrightarrow> slideRow row m = (rowLeft row, m \<or> rowLeft row \<noteq> row)"
  by (simp add: slideRow_eq rowLeft_eq)

lemma wf_grid_iff:
  "wf_grid g \<longleftrightarrow> (\<exists>r0 r1 r2 r3. g = [r0, r1, r2, r3] \<and> length r0 = BOARD_SIZE
      \<and> length r1 = BOARD_SIZE \<and> length r2 = BOARD_SIZE \<and> length r3 = BOARD_SIZE)"
  by (auto simp: wf_grid_def BOARD_SIZE_def length4)

lemma slidePiecesLeft_eq:
  assumes "wf_grid g"
  shows "slidePiecesLeft g = (map rowLeft g, map rowLeft g \<noteq> g)"
proof -
  from assms obtain r0 r1 r2 r3 where g: "g = [r0, r1, r2, r3]"
    and l: "length r0 = BOARD_SIZE" "length r1 = BOARD_SIZE"
           "length r2 = BOARD_SIZE" "length r3 = BOARD_SIZE"
    by (auto simp: wf_grid_iff)
  show ?thesis
    unfolding g slidePiecesLeft_def upt_BOARD_SIZE
    by (simp add: slideRow_rowLeft l) blast
qed

lemma wf_grid_map_rowLeft: "wf_grid g \<Longrightarrow> wf_grid (map rowLeft g)"
  by (auto simp: wf_grid_iff length_rowLeft)

section \<open>Rotation\<close>

lemma wf_grid_cellsE:
  assumes "wf_grid g"
  obtains a b c d e f h i j k l m n p q s
  where "g = [[a, b, c, d], [e, f, h, i], [j, k, l, m], [n, p, q, s]]"
proof -
  from assms obtain r0 r1 r2 r3 where g: "g = [r0, r1, r2, r3]"
    and l: "length r0 = 4" "length r1 = 4" "length r2 = 4" "length r3 = 4"
    by (auto simp: wf_grid_iff BOARD_SIZE_def)
  from l(1) obtain a b c d where "r0 = [a, b, c, d]" by (auto simp: length4)
  moreover from l(2) obtain e f h i where "r1 = [e, f, h, i]" by (auto simp: length4)
  moreover from l(3) obtain j k l m where "r2 = [j, k, l, m]" by (auto simp: length4)
  moreover from l(4) obtain n p q s where "r3 = [n, p, q, s]" by (auto simp: length4)
  ultimately show thesis using g that by blast
qed

lemma wf_grid_cellsI: "wf_grid [[a, b, c, d], [e, f, h, i], [j, k, l, m], [n, p, q, s]]"
  by (simp add: wf_grid_def BOARD_SIZE_def)

lemma rotate_ccw_cells:
  "rotateBoard True [[a, b, c, d], [e, f, h, i], [j, k, l, m], [n, p, q, s]]
     = [[d, i, m, s], [c, h, l, q], [b, f, k, p], [a, e, j, n]]"
  by (simp add: rotateBoard_def rotateStep_def BOARD_SIZE_def upt_rec numeral_eq_Suc)

lemma rotate_cw_cells:
  "rotateBoard False [[a, b, c, d], [e, f, h, i], [j, k, l, m], [n, p, q, s]]
     = [[n, j, e, a], [p, k, f, b], [q, l, h, c], [s, m, i, d]]"
  by (simp add: rotateBoard_def rotateStep_def BOARD_SIZE_def upt_rec numeral_eq_Suc)

lemma wf_grid_rotateBoard: 
  assumes "wf_grid g" shows "wf_grid (rotateBoard ccw g)"
  using assms by (cases ccw; elim wf_grid_cellsE) (simp_all add: wf_grid_cellsI rotate_ccw_cells rotate_cw_cells)

lemma rotate_cw_ccw: 
  assumes "wf_grid g" shows "rotateBoard False (rotateBoard True g) = g"
  using assms by (elim wf_grid_cellsE) (simp add: rotate_ccw_cells rotate_cw_cells)

lemma rotate_ccw_cw:
  assumes "wf_grid g" shows "rotateBoard True (rotateBoard False g) = g"
  using assms by (elim wf_grid_cellsE) (simp add: rotate_ccw_cells rotate_cw_cells)

lemma rotate_ccw_4:
  assumes "wf_grid g"
  shows "rotateBoard True (rotateBoard True (rotateBoard True (rotateBoard True g))) = g"
  using assms by (elim wf_grid_cellsE) (simp add: rotate_ccw_cells)

lemma rotate_cw_4:
  assumes "wf_grid g"
  shows "rotateBoard False (rotateBoard False (rotateBoard False (rotateBoard False g))) = g"
  using assms by (elim wf_grid_cellsE) (simp add: rotate_cw_cells)

text \<open>
  C5: on every 4 by 4 grid, four quarter turns in the same sense restore the grid, and the
  clockwise and the counter-clockwise quarter turn undo each other, in both orders; these are
  the compositions that \<open>slidePiecesRight\<close>, \<open>slidePiecesUp\<close> and \<open>slidePiecesDown\<close> wrap
  around the slide to the left.
\<close>

theorem rotateBoard_inverse:
  assumes "wf_grid g"
  shows "rotateBoard True (rotateBoard True (rotateBoard True (rotateBoard True g))) = g
       \<and> rotateBoard False (rotateBoard False (rotateBoard False (rotateBoard False g))) = g
       \<and> rotateBoard False (rotateBoard True g) = g
       \<and> rotateBoard True (rotateBoard False g) = g"
  using assms by (simp add: rotate_ccw_4 rotate_cw_4 rotate_cw_ccw rotate_ccw_cw)

theorem rotateBoard_inverse_witness:
  "wf_grid [[2, 0, 4, 8], [0, 16, 0, 2], [32, 64, 2, 0], [4, 4, 128, 0]]
   \<and> rotateBoard True (rotateBoard True (rotateBoard True (rotateBoard True
        [[2, 0, 4, 8], [0, 16, 0, 2], [32, 64, 2, 0], [4, 4, 128, 0]])))
       = [[2, 0, 4, 8], [0, 16, 0, 2], [32, 64, 2, 0], [4, 4, 128, 0]]
   \<and> rotateBoard False (rotateBoard True
        [[2, 0, 4, 8], [0, 16, 0, 2], [32, 64, 2, 0], [4, 4, 128, 0]])
       = [[2, 0, 4, 8], [0, 16, 0, 2], [32, 64, 2, 0], [4, 4, 128, 0]]"
proof -
  have wf: "wf_grid [[2, 0, 4, 8], [0, 16, 0, 2], [32, 64, 2, 0], [4, 4, 128, 0]]"
    by (simp add: wf_grid_def BOARD_SIZE_def)
  show ?thesis using wf rotateBoard_inverse [OF wf] by simp
qed

section \<open>Directions\<close>

lemma toupper_eq_upper:
  assumes "of_char u < (97::nat)"
  shows "toupper c = u \<longleftrightarrow> c = u \<or> (97 \<le> (of_char c :: nat) \<and> (of_char c :: nat) \<le> 122 \<and> of_char c = (of_char u :: nat) + 32)"
proof -
  have lt: "(of_char c :: nat) < 256" by simp
  show ?thesis
  proof (cases "97 \<le> (of_char c :: nat) \<and> (of_char c :: nat) \<le> 122")
    case True
    then have "toupper c = char_of ((of_char c :: nat) - 32)"
      by (simp add: toupper_def)
    moreover have "char_of ((of_char c :: nat) - 32) = u \<longleftrightarrow> (of_char c :: nat) - 32 = of_char u"
    proof -
      have "((of_char c :: nat) - 32) mod 256 = of_char c - 32"
        using lt by (intro mod_less) linarith
      then show ?thesis by (simp add: char_of_eq_iff take_bit_eq_mod)
    qed
    moreover have "c \<noteq> u" using True assms by auto
    ultimately show ?thesis using True by auto
  next
    case False
    then have "toupper c = c" by (auto simp: toupper_def)
    with False show ?thesis by auto
  qed
qed

lemma toupper_L: "toupper c = CHR ''L'' \<longleftrightarrow> c = CHR ''L'' \<or> c = CHR ''l''"
proof -
  have "(of_char c :: nat) = 108 \<longleftrightarrow> c = CHR ''l''"
    using of_char_eq_iff [of c "CHR ''l''", where ?'a = nat] by simp
  then show ?thesis by (subst toupper_eq_upper) auto
qed

lemma toupper_R: "toupper c = CHR ''R'' \<longleftrightarrow> c = CHR ''R'' \<or> c = CHR ''r''"
proof -
  have "(of_char c :: nat) = 114 \<longleftrightarrow> c = CHR ''r''"
    using of_char_eq_iff [of c "CHR ''r''", where ?'a = nat] by simp
  then show ?thesis by (subst toupper_eq_upper) auto
qed

lemma toupper_U: "toupper c = CHR ''U'' \<longleftrightarrow> c = CHR ''U'' \<or> c = CHR ''u''"
proof -
  have "(of_char c :: nat) = 117 \<longleftrightarrow> c = CHR ''u''"
    using of_char_eq_iff [of c "CHR ''u''", where ?'a = nat] by simp
  then show ?thesis by (subst toupper_eq_upper) auto
qed

lemma toupper_D: "toupper c = CHR ''D'' \<longleftrightarrow> c = CHR ''D'' \<or> c = CHR ''d''"
proof -
  have "(of_char c :: nat) = 100 \<longleftrightarrow> c = CHR ''d''"
    using of_char_eq_iff [of c "CHR ''d''", where ?'a = nat] by simp
  then show ?thesis by (subst toupper_eq_upper) auto
qed

lemma slideFor_None: "slideFor d g = None \<longleftrightarrow> d \<notin> set ''LRUDlrud''"
  by (auto simp: slideFor_def Let_def toupper_L toupper_R toupper_U toupper_D)

text \<open>
  Every directional slide is the slide to the left between a rotation and the rotation that
  undoes it.
\<close>

lemma conjugated_slide:
  assumes pre: "wf_grid (pre g)"
    and post_pre: "post (pre g) = g"
    and pre_post: "pre (post (map rowLeft (pre g))) = map rowLeft (pre g)"
  shows "(let (g1, m) = slidePiecesLeft (pre g) in (post g1, m))
           = (post (map rowLeft (pre g)), post (map rowLeft (pre g)) \<noteq> g)"
    and "(post (map rowLeft (pre g)) \<noteq> g) = (map rowLeft (pre g) \<noteq> pre g)"
proof -
  show eq: "(post (map rowLeft (pre g)) \<noteq> g) = (map rowLeft (pre g) \<noteq> pre g)"
    using post_pre pre_post by metis
  show "(let (g1, m) = slidePiecesLeft (pre g) in (post g1, m))
           = (post (map rowLeft (pre g)), post (map rowLeft (pre g)) \<noteq> g)"
    unfolding slidePiecesLeft_eq [OF pre] eq by simp
qed

lemma slidePiecesLeft_res:
  assumes "wf_grid g"
  shows "slidePiecesLeft g = (map rowLeft g, map rowLeft g \<noteq> g)"
    and "wf_grid (map rowLeft g)"
  using assms by (simp_all add: slidePiecesLeft_eq wf_grid_map_rowLeft)

lemma slidePiecesRight_res:
  assumes wf: "wf_grid g"
  defines "G \<equiv> map rowLeft (rotateBoard True (rotateBoard True g))"
  shows "slidePiecesRight g = (rotateBoard True (rotateBoard True G),
                               rotateBoard True (rotateBoard True G) \<noteq> g)"
    and "wf_grid (rotateBoard True (rotateBoard True G))"
    and "(rotateBoard True (rotateBoard True G) \<noteq> g)
           = (G \<noteq> rotateBoard True (rotateBoard True g))"
proof -
  let ?pre = "\<lambda>g. rotateBoard True (rotateBoard True g)"
  have pre: "wf_grid (?pre g)" using wf by (simp add: wf_grid_rotateBoard)
  have wfG: "wf_grid G" unfolding G_def using pre by (rule wf_grid_map_rowLeft)
  have post_pre: "?pre (?pre g) = g" using wf by (rule rotate_ccw_4)
  have pre_post: "?pre (?pre G) = G" using wfG by (rule rotate_ccw_4)
  show "slidePiecesRight g = (?pre G, ?pre G \<noteq> g)"
    unfolding slidePiecesRight_def G_def
    by (rule conjugated_slide(1) [of ?pre g ?pre, OF pre post_pre pre_post [unfolded G_def]])
  show "wf_grid (?pre G)" using wfG by (simp add: wf_grid_rotateBoard)
  show "(?pre G \<noteq> g) = (G \<noteq> ?pre g)"
    unfolding G_def
    by (rule conjugated_slide(2) [of ?pre g ?pre, OF pre post_pre pre_post [unfolded G_def]])
qed

lemma slidePiecesUp_res:
  assumes wf: "wf_grid g"
  defines "G \<equiv> map rowLeft (rotateBoard True g)"
  shows "slidePiecesUp g = (rotateBoard False G, rotateBoard False G \<noteq> g)"
    and "wf_grid (rotateBoard False G)"
    and "(rotateBoard False G \<noteq> g) = (G \<noteq> rotateBoard True g)"
proof -
  have pre: "wf_grid (rotateBoard True g)" using wf by (simp add: wf_grid_rotateBoard)
  have wfG: "wf_grid G" unfolding G_def using pre by (rule wf_grid_map_rowLeft)
  have post_pre: "rotateBoard False (rotateBoard True g) = g" using wf by (rule rotate_cw_ccw)
  have pre_post: "rotateBoard True (rotateBoard False G) = G" using wfG by (rule rotate_ccw_cw)
  show "slidePiecesUp g = (rotateBoard False G, rotateBoard False G \<noteq> g)"
    unfolding slidePiecesUp_def G_def
    by (rule conjugated_slide(1) [of "rotateBoard True" g "rotateBoard False",
          OF pre post_pre pre_post [unfolded G_def]])
  show "wf_grid (rotateBoard False G)" using wfG by (simp add: wf_grid_rotateBoard)
  show "(rotateBoard False G \<noteq> g) = (G \<noteq> rotateBoard True g)"
    unfolding G_def
    by (rule conjugated_slide(2) [of "rotateBoard True" g "rotateBoard False",
          OF pre post_pre pre_post [unfolded G_def]])
qed

lemma slidePiecesDown_res:
  assumes wf: "wf_grid g"
  defines "G \<equiv> map rowLeft (rotateBoard False g)"
  shows "slidePiecesDown g = (rotateBoard True G, rotateBoard True G \<noteq> g)"
    and "wf_grid (rotateBoard True G)"
    and "(rotateBoard True G \<noteq> g) = (G \<noteq> rotateBoard False g)"
proof -
  have pre: "wf_grid (rotateBoard False g)" using wf by (simp add: wf_grid_rotateBoard)
  have wfG: "wf_grid G" unfolding G_def using pre by (rule wf_grid_map_rowLeft)
  have post_pre: "rotateBoard True (rotateBoard False g) = g" using wf by (rule rotate_ccw_cw)
  have pre_post: "rotateBoard False (rotateBoard True G) = G" using wfG by (rule rotate_cw_ccw)
  show "slidePiecesDown g = (rotateBoard True G, rotateBoard True G \<noteq> g)"
    unfolding slidePiecesDown_def G_def
    by (rule conjugated_slide(1) [of "rotateBoard False" g "rotateBoard True",
          OF pre post_pre pre_post [unfolded G_def]])
  show "wf_grid (rotateBoard True G)" using wfG by (simp add: wf_grid_rotateBoard)
  show "(rotateBoard True G \<noteq> g) = (G \<noteq> rotateBoard False g)"
    unfolding G_def
    by (rule conjugated_slide(2) [of "rotateBoard False" g "rotateBoard True",
          OF pre post_pre pre_post [unfolded G_def]])
qed

lemma slideFor_res:
  assumes wf: "wf_grid g" and res: "slideFor d g = Some (g', moved)"
  shows "wf_grid g' \<and> moved = (g' \<noteq> g)"
proof -
  from res have "slidePiecesLeft g = (g', moved) \<or> slidePiecesRight g = (g', moved)
      \<or> slidePiecesUp g = (g', moved) \<or> slidePiecesDown g = (g', moved)"
    by (auto simp: slideFor_def Let_def split: if_splits)
  then show ?thesis
    using slidePiecesLeft_res [OF wf] slidePiecesRight_res(1,2) [OF wf]
      slidePiecesUp_res(1,2) [OF wf] slidePiecesDown_res(1,2) [OF wf] by auto
qed

lemma slideFor_Some:
  assumes "d \<in> set ''LRUDlrud''"
  obtains g' moved where "slideFor d g = Some (g', moved)"
  using assms slideFor_None [of d g] by (cases "slideFor d g") auto

text \<open>
  C7: a direction that is none of L, R, U, D in either case falls to the default case of the
  switch: move returns false, and the board and the random source are exactly as before.
\<close>

theorem move_unrecognized:
  assumes "direction \<notin> set ''LRUDlrud''"
  shows "move direction (b, r) = (False, b, r)"
  using assms slideFor_None [of direction "grid b"] by (simp add: move_def)

theorem move_unrecognized_witness:
  "CHR ''x'' \<notin> set ''LRUDlrud''
   \<and> move CHR ''x'' (\<lparr>grid = [[2, 2, 0, 0], [0, 0, 0, 0], [0, 4, 0, 0], [0, 0, 0, 0]],
                        winTarget = 256\<rparr>, \<lambda>n. 0)
     = (False, \<lparr>grid = [[2, 2, 0, 0], [0, 0, 0, 0], [0, 4, 0, 0], [0, 0, 0, 0]],
                 winTarget = 256\<rparr>, \<lambda>n. 0)"
proof -
  have h: "CHR ''x'' \<notin> set ''LRUDlrud''" by simp
  show ?thesis using h move_unrecognized [OF h] by simp
qed

section \<open>Spawning\<close>

lemma chooseRandomNumber_range:
  assumes "lo \<le> hi"
  shows "lo \<le> fst (chooseRandomNumber lo hi r)" and "fst (chooseRandomNumber lo hi r) \<le> hi"
proof -
  have pos: "0 < nat (hi + 1 - lo)" using assms by simp
  have "r 0 mod nat (hi + 1 - lo) < nat (hi + 1 - lo)"
    using pos by (rule mod_less_divisor)
  then have "int (r 0 mod nat (hi + 1 - lo)) < hi + 1 - lo"
    using assms by linarith
  then show "fst (chooseRandomNumber lo hi r) \<le> hi"
    by (simp add: chooseRandomNumber_def)
  show "lo \<le> fst (chooseRandomNumber lo hi r)"
    by (simp add: chooseRandomNumber_def)
qed

lemma emptySquares_set:
  "set (emptySquares g) = {(i, j). i < BOARD_SIZE \<and> j < BOARD_SIZE \<and> g ! i ! j = 0}"
  by (auto simp: emptySquares_def split: if_splits)

lemma empty_row_length:
  "length row = BOARD_SIZE \<Longrightarrow>
     length (concat (map (\<lambda>j. if row ! j = 0 then [(i, j)] else []) [0..<BOARD_SIZE]))
       = length (filter (\<lambda>v. v = 0) row)"
  by (auto simp: BOARD_SIZE_def length4 upt_rec)

lemma emptySquares_length:
  assumes "wf_grid g"
  shows "length (emptySquares g) = length (filter (\<lambda>v. v = 0) (concat g))"
proof -
  from assms obtain r0 r1 r2 r3 where g: "g = [r0, r1, r2, r3]"
    and l: "length r0 = BOARD_SIZE" "length r1 = BOARD_SIZE"
           "length r2 = BOARD_SIZE" "length r3 = BOARD_SIZE"
    by (auto simp: wf_grid_iff)
  have "emptySquares g =
      concat (map (\<lambda>j. if r0 ! j = 0 then [(0, j)] else []) [0..<BOARD_SIZE])
    @ concat (map (\<lambda>j. if r1 ! j = 0 then [(1, j)] else []) [0..<BOARD_SIZE])
    @ concat (map (\<lambda>j. if r2 ! j = 0 then [(2, j)] else []) [0..<BOARD_SIZE])
    @ concat (map (\<lambda>j. if r3 ! j = 0 then [(3, j)] else []) [0..<BOARD_SIZE])"
    unfolding emptySquares_def g upt_BOARD_SIZE [THEN arg_cong, of "map _"]
    by (simp add: upt_BOARD_SIZE)
  then show ?thesis
    by (simp add: g empty_row_length l)
qed

lemma emptySquares_Nil: "wf_grid g \<Longrightarrow> emptySquares g = [] \<longleftrightarrow> 0 \<notin> set (concat g)"
  using emptySquares_length [of g]
  by (metis (mono_tags, lifting) filter_False filter_empty_conv length_0_conv)

lemma getRandomStartingNumber_eq:
  "getRandomStartingNumber mode r =
     (let draw = fst (chooseRandomNumber 1 10 r)
      in if mode = ''E'' then (if draw \<le> 5 then 2 else 4)
         else if mode = ''M'' then (if draw \<le> 7 then 2 else 4)
         else (if draw \<le> 9 then 2 else 4),
      snd (chooseRandomNumber 1 10 r))"
  by (simp add: getRandomStartingNumber_def split_beta Let_def)

lemma getRandomStartingNumber_two_or_four:
  "fst (getRandomStartingNumber mode r) = 2 \<or> fst (getRandomStartingNumber mode r) = 4"
  by (simp add: getRandomStartingNumber_eq Let_def)

text \<open>What \<open>addRandomPiece\<close> does when there is an empty cell.\<close>

lemma addRandomPiece_spawn:
  assumes wf: "wf_grid g" and e: "emptySquares g \<noteq> []" and g: "g = grid b"
  obtains row col v r'
  where "addRandomPiece (b, r) = (b\<lparr>grid := g[row := (g ! row)[col := v]]\<rparr>, r')"
    and "(row, col) = emptySquares g !
            nat (fst (chooseRandomNumber 0 (int (length (emptySquares g)) - 1) r))"
    and "row < BOARD_SIZE" and "col < BOARD_SIZE" and "g ! row ! col = 0"
    and "v = fst (getRandomStartingNumber
                   (if winTarget b = 256 then ''E'' else if winTarget b = 512 then ''M'' else ''H'')
                   (snd (chooseRandomNumber 0 (int (length (emptySquares g)) - 1) r)))"
    and "r' = snd (getRandomStartingNumber
                   (if winTarget b = 256 then ''E'' else if winTarget b = 512 then ''M'' else ''H'')
                   (snd (chooseRandomNumber 0 (int (length (emptySquares g)) - 1) r)))"
proof -
  let ?es = "emptySquares g"
  let ?k = "fst (chooseRandomNumber 0 (int (length ?es) - 1) r)"
  have len: "0 < length ?es" using e by simp
  then have "0 \<le> ?k" "?k \<le> int (length ?es) - 1"
    using chooseRandomNumber_range [of 0 "int (length ?es) - 1" r] by simp_all
  then have k: "nat ?k < length ?es" by linarith
  obtain row col where rc: "(row, col) = ?es ! nat ?k"
    by (cases "?es ! nat ?k") simp
  from k rc have "(row, col) \<in> set ?es" by (metis nth_mem)
  then have cell: "row < BOARD_SIZE" "col < BOARD_SIZE" "g ! row ! col = 0"
    by (simp_all add: emptySquares_set)
  have "addRandomPiece (b, r) =
      (b\<lparr>grid := g[row := (g ! row)[col := fst (getRandomStartingNumber
                   (if winTarget b = 256 then ''E'' else if winTarget b = 512 then ''M'' else ''H'')
                   (snd (chooseRandomNumber 0 (int (length ?es) - 1) r)))]]\<rparr>,
       snd (getRandomStartingNumber
                   (if winTarget b = 256 then ''E'' else if winTarget b = 512 then ''M'' else ''H'')
                   (snd (chooseRandomNumber 0 (int (length ?es) - 1) r))))"
    using e rc [symmetric] by (simp add: addRandomPiece_def g [symmetric] Let_def split_beta)
  then show thesis using that rc cell by blast
qed

lemma wf_grid_update:
  assumes "wf_grid g"
  shows "wf_grid (g[row := (g ! row)[col := v]])"
proof (cases "row < length g")
  case True
  then have "length (g ! row) = BOARD_SIZE"
    using assms by (simp add: wf_grid_def list_all_length)
  moreover have "length (g[row := (g ! row)[col := v]] ! n) = BOARD_SIZE"
    if "n < BOARD_SIZE" "length (g ! row) = BOARD_SIZE" for n
    using that assms by (cases "n = row") (simp_all add: wf_grid_def list_all_length)
  ultimately show ?thesis
    using assms by (simp add: wf_grid_def list_all_length)
next
  case False
  then have "g[row := (g ! row)[col := v]] = g"
    by (metis list_update_beyond not_less)
  then show ?thesis using assms by simp
qed

lemma nz_update_length:
  assumes "j < length xs" and "xs ! j = 0" and "v \<noteq> 0"
  shows "length (nz (xs[j := v])) = Suc (length (nz xs))"
proof -
  have "xs = take j xs @ xs ! j # drop (Suc j) xs"
    using assms(1) by (rule id_take_nth_drop)
  then have "length (nz xs) = length (nz (take j xs)) + length (nz (drop (Suc j) xs))"
    using assms(2) by (metis (mono_tags, lifting) filter.simps(2) filter_append length_append)
  moreover have "xs[j := v] = take j xs @ v # drop (Suc j) xs"
    using assms(1) by (rule upd_conv_take_nth_drop)
  ultimately show ?thesis using assms(3) by simp
qed

lemma concat_update:
  assumes "i < length g"
  shows "concat (g[i := row]) = concat (take i g) @ row @ concat (drop (Suc i) g)"
    and "concat g = concat (take i g) @ g ! i @ concat (drop (Suc i) g)"
proof -
  show "concat (g[i := row]) = concat (take i g) @ row @ concat (drop (Suc i) g)"
    using assms by (simp add: upd_conv_take_nth_drop)
  have "concat g = concat (take i g @ g ! i # drop (Suc i) g)"
    using assms by (simp add: id_take_nth_drop [symmetric])
  then show "concat g = concat (take i g) @ g ! i @ concat (drop (Suc i) g)"
    by simp
qed

lemma nz_count_spawn:
  assumes "wf_grid g" and "row < BOARD_SIZE" and "col < BOARD_SIZE"
    and "g ! row ! col = 0" and "v \<noteq> 0"
  shows "length (nz (concat (g[row := (g ! row)[col := v]]))) = Suc (length (nz (concat g)))"
proof -
  have r: "row < length g" and c: "col < length (g ! row)"
    using assms(1-3) by (simp_all add: wf_grid_def list_all_length)
  have "length (nz (concat (g[row := (g ! row)[col := v]])))
          = length (nz (concat (take row g))) + length (nz ((g ! row)[col := v]))
            + length (nz (concat (drop (Suc row) g)))"
    by (simp add: concat_update(1) [OF r])
  moreover have "length (nz (concat g))
          = length (nz (concat (take row g))) + length (nz (g ! row))
            + length (nz (concat (drop (Suc row) g)))"
    by (subst concat_update(2) [OF r]) simp
  ultimately show ?thesis
    by (simp add: nz_update_length [OF c assms(4,5)])
qed


lemma spawn_cells:
  assumes "row < length g" and "col < length (g ! row)"
  shows "g[row := (g ! row)[col := v]] ! row ! col = v"
    and "(i, j) \<noteq> (row, col) \<Longrightarrow> g[row := (g ! row)[col := v]] ! i ! j = g ! i ! j"
proof -
  show "g[row := (g ! row)[col := v]] ! row ! col = v"
    using assms by simp
  show "g[row := (g ! row)[col := v]] ! i ! j = g ! i ! j" if "(i, j) \<noteq> (row, col)"
  proof (cases "i = row")
    case True
    with that have "j \<noteq> col" by simp
    with True assms show ?thesis by simp
  next
    case False
    then show ?thesis by simp
  qed
qed

text \<open>
  C6: with no empty cell \<open>addRandomPiece\<close> returns the board and the random source as they
  are. Otherwise it draws an index \<open>k\<close> between 0 and the number of empty cells minus one,
  takes the \<open>k\<close>-th empty cell in row-major order, draws between 1 and 10, and writes 2 or 4
  there by the threshold of the win target (5 for 256, 7 for 512, 9 otherwise); the cell was
  empty, and every other cell keeps its value.
\<close>

theorem addRandomPiece_spec:
  assumes wf: "wf_grid (grid b)"
  shows "(0 \<notin> set (concat (grid b)) \<longrightarrow> addRandomPiece (b, r) = (b, r))
       \<and> (0 \<in> set (concat (grid b)) \<longrightarrow>
           (let g = grid b; es = emptySquares g;
                emptyCount = length (filter (\<lambda>v. v = 0) (concat g));
                (k, r1) = chooseRandomNumber 0 (int emptyCount - 1) r;
                (row, col) = es ! nat k;
                (draw, r2) = chooseRandomNumber 1 10 r1;
                v = (if winTarget b = 256 then (if draw \<le> 5 then 2 else 4)
                     else if winTarget b = 512 then (if draw \<le> 7 then 2 else 4)
                     else (if draw \<le> 9 then 2 else 4));
                g' = grid (fst (addRandomPiece (b, r)))
            in length es = emptyCount \<and> 0 \<le> k \<and> k \<le> int emptyCount - 1
               \<and> 1 \<le> draw \<and> draw \<le> 10
               \<and> row < BOARD_SIZE \<and> col < BOARD_SIZE \<and> g ! row ! col = 0
               \<and> addRandomPiece (b, r) = (b\<lparr>grid := g[row := (g ! row)[col := v]]\<rparr>, r2)
               \<and> g' ! row ! col = v
               \<and> (\<forall>i j. (i, j) \<noteq> (row, col) \<longrightarrow> g' ! i ! j = g ! i ! j)
               \<and> wf_grid g'))"
proof (intro conjI impI)
  assume "0 \<notin> set (concat (grid b))"
  then have "emptySquares (grid b) = []"
    using wf by (simp add: emptySquares_Nil)
  then show "addRandomPiece (b, r) = (b, r)"
    by (simp add: addRandomPiece_def)
next
  assume "0 \<in> set (concat (grid b))"
  then have e: "emptySquares (grid b) \<noteq> []"
    using wf by (simp add: emptySquares_Nil)
  define g where "g = grid b"
  define n where "n = length (filter (\<lambda>v. v = 0) (concat g))"
  have len: "length (emptySquares g) = n"
    using wf by (simp add: n_def g_def emptySquares_length)
  then have n: "0 < n" using e by (auto simp: g_def)
  define k where "k = fst (chooseRandomNumber 0 (int n - 1) r)"
  define r1 where "r1 = snd (chooseRandomNumber 0 (int n - 1) r)"
  define draw where "draw = fst (chooseRandomNumber 1 10 r1)"
  define r2 where "r2 = snd (chooseRandomNumber 1 10 r1)"
  define v :: int where "v = (if winTarget b = 256 then (if draw \<le> 5 then 2 else 4)
                     else if winTarget b = 512 then (if draw \<le> 7 then 2 else 4)
                     else (if draw \<le> 9 then 2 else 4))"
  have k: "0 \<le> k" "k \<le> int n - 1"
    using chooseRandomNumber_range [of 0 "int n - 1" r] n by (simp_all add: k_def)
  have d: "1 \<le> draw" "draw \<le> 10"
    using chooseRandomNumber_range [of 1 10 r1] by (simp_all add: draw_def)
  from addRandomPiece_spawn [of g b r] wf e
  obtain row col v' r' where
    add: "addRandomPiece (b, r) = (b\<lparr>grid := g[row := (g ! row)[col := v']]\<rparr>, r')"
    and rc: "(row, col) = emptySquares g ! nat k"
    and cell: "row < BOARD_SIZE" "col < BOARD_SIZE" "g ! row ! col = 0"
    and v': "v' = fst (getRandomStartingNumber
                   (if winTarget b = 256 then ''E'' else if winTarget b = 512 then ''M'' else ''H'')
                   r1)"
    and r': "r' = snd (getRandomStartingNumber
                   (if winTarget b = 256 then ''E'' else if winTarget b = 512 then ''M'' else ''H'')
                   r1)"
    unfolding g_def [symmetric] len k_def r1_def by blast
  have vv: "v' = v" and rr: "r' = r2"
    unfolding v' r' by (simp_all add: getRandomStartingNumber_eq v_def draw_def r2_def Let_def)
  have inr: "row < length g" "col < length (g ! row)"
    using wf cell(1,2) by (simp_all add: g_def wf_grid_def list_all_length)
  have g': "grid (fst (addRandomPiece (b, r))) = g[row := (g ! row)[col := v]]"
    by (simp add: add vv)
  have wf': "wf_grid (g[row := (g ! row)[col := v]])"
    using wf by (simp add: g_def wf_grid_update)
  have other: "\<forall>i j. (i, j) \<noteq> (row, col) \<longrightarrow> g[row := (g ! row)[col := v]] ! i ! j = g ! i ! j"
    using spawn_cells(2) [OF inr] by blast
  have "length (emptySquares g) = n \<and> 0 \<le> k \<and> k \<le> int n - 1
               \<and> 1 \<le> draw \<and> draw \<le> 10
               \<and> row < BOARD_SIZE \<and> col < BOARD_SIZE \<and> g ! row ! col = 0
               \<and> addRandomPiece (b, r) = (b\<lparr>grid := g[row := (g ! row)[col := v]]\<rparr>, r2)
               \<and> g[row := (g ! row)[col := v]] ! row ! col = v
               \<and> (\<forall>i j. (i, j) \<noteq> (row, col) \<longrightarrow> g[row := (g ! row)[col := v]] ! i ! j = g ! i ! j)
               \<and> wf_grid (g[row := (g ! row)[col := v]])"
    using len k d cell add vv rr spawn_cells(1) [OF inr] other wf' by simp
  then show "let g = grid b; es = emptySquares g;
                emptyCount = length (filter (\<lambda>v. v = 0) (concat g));
                (k, r1) = chooseRandomNumber 0 (int emptyCount - 1) r;
                (row, col) = es ! nat k;
                (draw, r2) = chooseRandomNumber 1 10 r1;
                v = (if winTarget b = 256 then (if draw \<le> 5 then 2 else 4)
                     else if winTarget b = 512 then (if draw \<le> 7 then 2 else 4)
                     else (if draw \<le> 9 then 2 else 4));
                g' = grid (fst (addRandomPiece (b, r)))
            in length es = emptyCount \<and> 0 \<le> k \<and> k \<le> int emptyCount - 1
               \<and> 1 \<le> draw \<and> draw \<le> 10
               \<and> row < BOARD_SIZE \<and> col < BOARD_SIZE \<and> g ! row ! col = 0
               \<and> addRandomPiece (b, r) = (b\<lparr>grid := g[row := (g ! row)[col := v]]\<rparr>, r2)
               \<and> g' ! row ! col = v
               \<and> (\<forall>i j. (i, j) \<noteq> (row, col) \<longrightarrow> g' ! i ! j = g ! i ! j)
               \<and> wf_grid g'"
    unfolding Let_def split_beta g' [unfolded g_def v_def draw_def r1_def k_def n_def]
    unfolding g_def v_def draw_def r2_def r1_def k_def n_def rc [unfolded g_def k_def n_def, symmetric]
    by simp
qed


theorem addRandomPiece_spec_witness:
  "wf_grid [[2, 0, 0, 0], [0, 0, 0, 0], [0, 4, 0, 0], [0, 0, 0, 0]]
   \<and> 0 \<in> set (concat [[2, 0, 0, 0], [0, 0, 0, 0], [0, 4, 0, 0], [0, 0, 0, 0 :: int]])
   \<and> addRandomPiece (\<lparr>grid = [[2, 0, 0, 0], [0, 0, 0, 0], [0, 4, 0, 0], [0, 0, 0, 0]],
                        winTarget = 512\<rparr>, \<lambda>n. 5)
       = (\<lparr>grid = [[2, 0, 0, 0], [0, 0, 2, 0], [0, 4, 0, 0], [0, 0, 0, 0]],
            winTarget = 512\<rparr>, \<lambda>n. 5)
   \<and> wf_grid [[2, 4, 2, 4], [4, 2, 4, 2], [2, 4, 2, 4], [4, 2, 4, 2]]
   \<and> 0 \<notin> set (concat [[2, 4, 2, 4], [4, 2, 4, 2], [2, 4, 2, 4], [4, 2, 4, 2 :: int]])
   \<and> addRandomPiece (\<lparr>grid = [[2, 4, 2, 4], [4, 2, 4, 2], [2, 4, 2, 4], [4, 2, 4, 2]],
                        winTarget = 512\<rparr>, \<lambda>n. 5)
       = (\<lparr>grid = [[2, 4, 2, 4], [4, 2, 4, 2], [2, 4, 2, 4], [4, 2, 4, 2]],
            winTarget = 512\<rparr>, \<lambda>n. 5)"
proof -
  have wf1: "wf_grid (grid \<lparr>grid = [[2, 0, 0, 0], [0, 0, 0, 0], [0, 4, 0, 0], [0, 0, 0, 0]],
                            winTarget = 512\<rparr>)"
    by (simp add: wf_grid_def BOARD_SIZE_def)
  have wf2: "wf_grid (grid \<lparr>grid = [[2, 4, 2, 4], [4, 2, 4, 2], [2, 4, 2, 4], [4, 2, 4, 2]],
                            winTarget = 512\<rparr>)"
    by (simp add: wf_grid_def BOARD_SIZE_def)
  show ?thesis
    using wf1 wf2 addRandomPiece_spec [OF wf1, of "\<lambda>n. 5"] addRandomPiece_spec [OF wf2, of "\<lambda>n. 5"]
    by (simp add: emptySquares_def chooseRandomNumber_def BOARD_SIZE_def upt_rec Let_def)
qed

lemma set_concat_update:
  assumes "row < length g"
  shows "set (concat (g[row := (g ! row)[col := v]])) \<subseteq> insert v (set (concat g))"
proof -
  have "set ((g ! row)[col := v]) \<subseteq> insert v (set (g ! row))"
    by (rule set_update_subset_insert)
  moreover have "set (concat (g[row := (g ! row)[col := v]]))
      = set (concat (take row g)) \<union> set ((g ! row)[col := v])
        \<union> set (concat (drop (Suc row) g))"
    unfolding concat_update(1) [OF assms] by (simp only: set_append Un_assoc)
  moreover have "set (concat g)
      = set (concat (take row g)) \<union> set (g ! row) \<union> set (concat (drop (Suc row) g))"
    by (subst concat_update(2) [OF assms]) (simp only: set_append Un_assoc)
  ultimately show ?thesis by blast
qed

lemma addRandomPiece_grows:
  assumes wf: "wf_grid (grid b)" and z: "0 \<in> set (concat (grid b))"
  shows "wf_grid (grid (fst (addRandomPiece (b, r))))"
    and "winTarget (fst (addRandomPiece (b, r))) = winTarget b"
    and "length (nz (concat (grid (fst (addRandomPiece (b, r))))))
           = Suc (length (nz (concat (grid b))))"
    and "set (concat (grid (fst (addRandomPiece (b, r))))) \<subseteq> {2, 4} \<union> set (concat (grid b))"
proof -
  from z have e: "emptySquares (grid b) \<noteq> []"
    using wf by (simp add: emptySquares_Nil)
  from addRandomPiece_spawn [OF wf e refl, of r]
  obtain row col v r' where
    add: "addRandomPiece (b, r) = (b\<lparr>grid := (grid b)[row := (grid b ! row)[col := v]]\<rparr>, r')"
    and cell: "row < BOARD_SIZE" "col < BOARD_SIZE" "grid b ! row ! col = 0"
    and v: "v = fst (getRandomStartingNumber
                   (if winTarget b = 256 then ''E'' else if winTarget b = 512 then ''M'' else ''H'')
                   (snd (chooseRandomNumber 0 (int (length (emptySquares (grid b))) - 1) r)))"
    by metis
  have v24: "v = 2 \<or> v = 4"
    unfolding v by (rule getRandomStartingNumber_two_or_four)
  then have v0: "v \<noteq> 0" by auto
  have r: "row < length (grid b)" using wf cell(1) by (simp add: wf_grid_def)
  show "wf_grid (grid (fst (addRandomPiece (b, r))))"
    using wf by (simp add: add wf_grid_update)
  show "winTarget (fst (addRandomPiece (b, r))) = winTarget b"
    by (simp add: add)
  show "length (nz (concat (grid (fst (addRandomPiece (b, r))))))
           = Suc (length (nz (concat (grid b))))"
    using nz_count_spawn [OF wf cell v0] by (simp add: add)
  show "set (concat (grid (fst (addRandomPiece (b, r))))) \<subseteq> {2, 4} \<union> set (concat (grid b))"
    using set_concat_update [OF r, of col v] v24 by (auto simp: add)
qed

lemma wf_grid_length_concat: "wf_grid g \<Longrightarrow> length (concat g) = 16"
  by (auto simp: wf_grid_iff BOARD_SIZE_def)

lemma length_nz_zeros: "length (nz xs) + length (filter (\<lambda>v. v = 0) xs) = length xs"
  using sum_length_filter_compl [of "\<lambda>v. v \<noteq> 0" xs] by simp

lemma nz_short_zero: "length (nz xs) < length xs \<Longrightarrow> 0 \<in> set xs"
  by (metis (mono_tags, lifting) filter_True less_irrefl)

text \<open>
  C8: the constructor is two calls of \<open>addRandomPiece\<close>, one after the other, on the board
  whose sixteen cells are 0 and whose win target is already set from the mode (256 for E,
  512 for M, 1024 otherwise, so for H), so that both spawns use the thresholds of that
  target. The first leaves exactly one non-zero cell, and the grid of the constructed board
  has exactly two non-zero cells, each 2 or 4, and fourteen zeros.
\<close>

theorem Board_initial:
  "(let b0 = \<lparr>grid = replicate BOARD_SIZE (replicate BOARD_SIZE 0),
               winTarget = (if mode = ''E'' then 256 else if mode = ''M'' then 512 else 1024)\<rparr>;
        s1 = addRandomPiece (b0, r)
    in Board mode r = addRandomPiece s1
       \<and> concat (grid b0) = replicate 16 0
       \<and> winTarget (fst s1) = winTarget b0
       \<and> length (nz (concat (grid (fst s1)))) = 1
       \<and> set (nz (concat (grid (fst s1)))) \<subseteq> {2, 4})
   \<and> wf_grid (grid (fst (Board mode r)))
   \<and> winTarget (fst (Board mode r))
       = (if mode = ''E'' then 256 else if mode = ''M'' then 512 else 1024)
   \<and> length (concat (grid (fst (Board mode r)))) = 16
   \<and> length (nz (concat (grid (fst (Board mode r))))) = 2
   \<and> length (filter (\<lambda>v. v = 0) (concat (grid (fst (Board mode r))))) = 14
   \<and> set (nz (concat (grid (fst (Board mode r))))) \<subseteq> {2, 4}"
proof -
  define b0 where "b0 = \<lparr>grid = replicate BOARD_SIZE (replicate BOARD_SIZE (0::int)),
         winTarget = (if mode = ''E'' then 256 else if mode = ''M'' then 512 else 1024)\<rparr>"
  define s1 where "s1 = addRandomPiece (b0, r)"
  define b2 where "b2 = fst (addRandomPiece (fst s1, snd s1))"
  have two_calls: "Board mode r = addRandomPiece s1"
    by (simp add: Board_def s1_def b0_def)
  then have B: "fst (Board mode r) = b2"
    by (simp add: b2_def)
  have g0: "grid b0 = [[0, 0, 0, 0], [0, 0, 0, 0], [0, 0, 0, 0], [0, 0, 0, 0]]"
    by (simp add: b0_def BOARD_SIZE_def numeral_eq_Suc)
  have zeros: "concat (grid b0) = replicate 16 0"
    by (simp add: g0 numeral_eq_Suc)
  have wf0: "wf_grid (grid b0)" unfolding g0 by (rule wf_grid_cellsI)
  have z0: "0 \<in> set (concat (grid b0))" by (simp add: g0)
  have n0: "length (nz (concat (grid b0))) = 0" by (simp add: g0)
  have c0: "set (concat (grid b0)) \<subseteq> {0}" by (simp add: g0)
  note one = addRandomPiece_grows [OF wf0 z0, of r, folded s1_def]
  have n1: "length (nz (concat (grid (fst s1)))) = 1" using one(3) n0 by simp
  have "set (concat (grid (fst s1))) \<subseteq> {0, 2, 4}" using one(4) c0 by blast
  then have cells1: "set (nz (concat (grid (fst s1)))) \<subseteq> {2, 4}" by auto
  have z1: "0 \<in> set (concat (grid (fst s1)))"
    using n1 wf_grid_length_concat [OF one(1)] by (intro nz_short_zero) simp
  note two = addRandomPiece_grows [OF one(1) z1, of "snd s1", folded b2_def]
  have n2: "length (nz (concat (grid b2))) = 2" using two(3) n1 by simp
  have len: "length (concat (grid b2)) = 16" using two(1) by (rule wf_grid_length_concat)
  have zs: "length (filter (\<lambda>v. v = 0) (concat (grid b2))) = 14"
    using length_nz_zeros [of "concat (grid b2)"] n2 len by simp
  have "set (concat (grid b2)) \<subseteq> {0, 2, 4}"
    using two(4) one(4) c0 by blast
  then have cells: "set (nz (concat (grid b2))) \<subseteq> {2, 4}" by auto
  have wt: "winTarget b2 = (if mode = ''E'' then 256 else if mode = ''M'' then 512 else 1024)"
    using two(2) one(2) by (simp add: b0_def)
  have first: "let b0 = \<lparr>grid = replicate BOARD_SIZE (replicate BOARD_SIZE 0),
               winTarget = (if mode = ''E'' then 256 else if mode = ''M'' then 512 else 1024)\<rparr>;
        s1 = addRandomPiece (b0, r)
    in Board mode r = addRandomPiece s1
       \<and> concat (grid b0) = replicate 16 0
       \<and> winTarget (fst s1) = winTarget b0
       \<and> length (nz (concat (grid (fst s1)))) = 1
       \<and> set (nz (concat (grid (fst s1)))) \<subseteq> {2, 4}"
    unfolding Let_def
    using two_calls zeros one(2) n1 cells1 unfolding s1_def b0_def by simp
  show ?thesis unfolding B using first two(1) wt len n2 zs cells by simp
qed

theorem Board_initial_witness:
  "fst (addRandomPiece (\<lparr>grid = replicate BOARD_SIZE (replicate BOARD_SIZE 0), winTarget = 256\<rparr>,
                        \<lambda>n. 5))
     = \<lparr>grid = [[0, 0, 0, 0], [0, 4, 0, 0], [0, 0, 0, 0], [0, 0, 0, 0]], winTarget = 256\<rparr>
   \<and> fst (Board ''E'' (\<lambda>n. 5))
     = \<lparr>grid = [[0, 0, 0, 0], [0, 4, 4, 0], [0, 0, 0, 0], [0, 0, 0, 0]], winTarget = 256\<rparr>
   \<and> winTarget (fst (Board ''E'' (\<lambda>n. 5))) = 256
   \<and> length (nz (concat (grid (fst (Board ''E'' (\<lambda>n. 5)))))) = 2
   \<and> length (filter (\<lambda>v. v = 0) (concat (grid (fst (Board ''E'' (\<lambda>n. 5)))))) = 14"
proof -
  have "fst (addRandomPiece (\<lparr>grid = replicate BOARD_SIZE (replicate BOARD_SIZE 0),
                               winTarget = 256\<rparr>, \<lambda>n. 5))
     = \<lparr>grid = [[0, 0, 0, 0], [0, 4, 0, 0], [0, 0, 0, 0], [0, 0, 0, 0]], winTarget = 256\<rparr>"
    by code_simp
  moreover have "fst (Board ''E'' (\<lambda>n. 5))
     = \<lparr>grid = [[0, 0, 0, 0], [0, 4, 4, 0], [0, 0, 0, 0], [0, 0, 0, 0]], winTarget = 256\<rparr>"
    by code_simp
  ultimately show ?thesis using Board_initial [of "''E''" "\<lambda>n. 5"] by simp
qed

section \<open>Moves\<close>

lemma rowLeft_changed_zero:
  assumes len: "length row = BOARD_SIZE" and ch: "rowLeft row \<noteq> row"
  shows "0 \<in> set (rowLeft row)"
proof (cases "length (collapse row) < BOARD_SIZE")
  case True
  then show ?thesis by (simp add: rowLeft_eq [OF len] pad_eq)
next
  case False
  with collapse_length [of row] len length_filter_le [of "\<lambda>v. v \<noteq> 0" row]
  have full: "length (nz row) = length row" and c: "length (collapse row) = BOARD_SIZE"
    using collapse_length_row [of row] by linarith+
  have "\<not> snd (fold combineStep row ([], False))"
    using fold_combineStep_length [of row "[]"] c full len
    by (auto simp: collapse_def split: if_splits)
  then have "collapse row = nz row"
    using fold_combineStep_unmerged [of row "[]"] by (simp add: collapse_def)
  moreover have "nz row = row"
    using full by (metis (mono_tags, lifting) length_filter_less less_irrefl filter_True)
  ultimately have "rowLeft row = row"
    using len by (simp add: rowLeft_eq pad_eq)
  with ch show ?thesis by simp
qed

lemma map_rowLeft_changed_zero:
  assumes wf: "wf_grid g" and ch: "map rowLeft g \<noteq> g"
  shows "0 \<in> set (concat (map rowLeft g))"
proof -
  from ch obtain row where r: "row \<in> set g" and c: "rowLeft row \<noteq> row"
    by (metis map_idI)
  from wf r have "length row = BOARD_SIZE"
    by (simp add: wf_grid_def list_all_iff)
  then have "0 \<in> set (rowLeft row)" using c by (rule rowLeft_changed_zero)
  with r show ?thesis by auto
qed

lemma set_concat_rotateBoard:
  assumes "wf_grid g"
  shows "set (concat (rotateBoard ccw g)) = set (concat g)"
  using assms
  by (cases ccw; elim wf_grid_cellsE) (auto simp add: rotate_ccw_cells rotate_cw_cells)

lemma slideFor_changed_zero:
  assumes wf: "wf_grid g" and res: "slideFor d g = Some (g', moved)" and ch: "g' \<noteq> g"
  shows "0 \<in> set (concat g')"
proof -
  let ?r2 = "\<lambda>g. rotateBoard True (rotateBoard True g)"
  have wfr: "wf_grid (rotateBoard c h)" if "wf_grid h" for c h
    using that by (rule wf_grid_rotateBoard)
  from res consider
      (L) "slidePiecesLeft g = (g', moved)" | (R) "slidePiecesRight g = (g', moved)"
    | (U) "slidePiecesUp g = (g', moved)" | (D) "slidePiecesDown g = (g', moved)"
    by (auto simp: slideFor_def Let_def split: if_splits)
  then show ?thesis
  proof cases
    case L
    then show ?thesis
      using map_rowLeft_changed_zero [OF wf] ch by (simp add: slidePiecesLeft_eq [OF wf])
  next
    case R
    let ?G = "map rowLeft (?r2 g)"
    from R have g': "g' = ?r2 ?G" and "?G \<noteq> ?r2 g"
      using slidePiecesRight_res(1,3) [OF wf] ch by auto
    then have "0 \<in> set (concat ?G)"
      using map_rowLeft_changed_zero [of "?r2 g"] wf by (simp add: wfr)
    moreover have "wf_grid ?G" using wf by (simp add: wfr wf_grid_map_rowLeft)
    ultimately show ?thesis
      unfolding g'
      by (simp only: set_concat_rotateBoard [OF wfr] set_concat_rotateBoard [of ?G])
  next
    case U
    let ?G = "map rowLeft (rotateBoard True g)"
    from U have g': "g' = rotateBoard False ?G" and "?G \<noteq> rotateBoard True g"
      using slidePiecesUp_res(1,3) [OF wf] ch by auto
    then have "0 \<in> set (concat ?G)"
      using map_rowLeft_changed_zero [of "rotateBoard True g"] wf by (simp add: wfr)
    moreover have "wf_grid ?G" using wf by (simp add: wfr wf_grid_map_rowLeft)
    ultimately show ?thesis
      unfolding g' by (simp only: set_concat_rotateBoard)
  next
    case D
    let ?G = "map rowLeft (rotateBoard False g)"
    from D have g': "g' = rotateBoard True ?G" and "?G \<noteq> rotateBoard False g"
      using slidePiecesDown_res(1,3) [OF wf] ch by auto
    then have "0 \<in> set (concat ?G)"
      using map_rowLeft_changed_zero [of "rotateBoard False g"] wf by (simp add: wfr)
    moreover have "wf_grid ?G" using wf by (simp add: wfr wf_grid_map_rowLeft)
    ultimately show ?thesis
      unfolding g' by (simp only: set_concat_rotateBoard)
  qed
qed

text \<open>What a move does once the switch has produced the slid grid.\<close>

lemma move_after_slide:
  assumes wf: "wf_grid (grid b)" and res: "slideFor d (grid b) = Some (g', moved)"
  shows "moved = (g' \<noteq> grid b)"
    and "g' \<noteq> grid b \<Longrightarrow> move d (b, r) = (True, addRandomPiece (b\<lparr>grid := g'\<rparr>, r))"
    and "g' = grid b \<Longrightarrow> move d (b, r) = (False, b, r)"
proof -
  show m: "moved = (g' \<noteq> grid b)" using slideFor_res [OF wf res] by simp
  show "move d (b, r) = (True, addRandomPiece (b\<lparr>grid := g'\<rparr>, r))" if "g' \<noteq> grid b"
    using that m res by (simp add: move_def split_beta)
  show "move d (b, r) = (False, b, r)" if "g' = grid b"
    using that m res by (simp add: move_def)
qed

lemma spawn_after_slide:
  assumes wf: "wf_grid (grid b)" and res: "slideFor d (grid b) = Some (g', moved)"
    and ch: "g' \<noteq> grid b"
  obtains row col v r'
  where "addRandomPiece (b\<lparr>grid := g'\<rparr>, r) = (b\<lparr>grid := g'[row := (g' ! row)[col := v]]\<rparr>, r')"
    and "row < BOARD_SIZE" and "col < BOARD_SIZE" and "g' ! row ! col = 0"
    and "v = 2 \<or> v = 4"
proof -
  have wf': "wf_grid g'" using slideFor_res [OF wf res] by simp
  have "0 \<in> set (concat g')" using wf res ch by (rule slideFor_changed_zero)
  then have e: "emptySquares g' \<noteq> []" using wf' by (simp add: emptySquares_Nil)
  define b' where "b' = b\<lparr>grid := g'\<rparr>"
  have gb: "grid b' = g'" by (simp add: b'_def)
  have wfb: "wf_grid (grid b')" and eb: "emptySquares (grid b') \<noteq> []"
    using wf' e by (simp_all add: gb)
  from addRandomPiece_spawn [OF wfb eb refl, of r]
  obtain row col v r' where
    add: "addRandomPiece (b', r)
            = (b'\<lparr>grid := (grid b')[row := (grid b' ! row)[col := v]]\<rparr>, r')"
    and cell: "row < BOARD_SIZE" "col < BOARD_SIZE" "grid b' ! row ! col = 0"
    and v: "v = fst (getRandomStartingNumber
               (if winTarget b' = 256 then ''E'' else if winTarget b' = 512 then ''M'' else ''H'')
               (snd (chooseRandomNumber 0 (int (length (emptySquares (grid b'))) - 1) r)))"
    by metis
  have v24: "v = 2 \<or> v = 4" unfolding v by (rule getRandomStartingNumber_two_or_four)
  have "addRandomPiece (b\<lparr>grid := g'\<rparr>, r)
          = (b\<lparr>grid := g'[row := (g' ! row)[col := v]]\<rparr>, r')"
    using add unfolding gb by (simp add: b'_def)
  then show thesis using that [of row col v r'] cell v24 unfolding gb by blast
qed

text \<open>
  C10: when the slide of a move changes the grid, the slid grid has an empty cell, so the
  spawn that follows does not take its do-nothing branch: the move returns true and its grid
  is the slid grid with one empty cell set to 2 or 4, one more non-zero cell than before.
\<close>

theorem changed_slide_leaves_empty_cell:
  assumes wf: "wf_grid (grid b)" and res: "slideFor d (grid b) = Some (g', moved)"
    and ch: "g' \<noteq> grid b"
  shows "0 \<in> set (concat g') \<and> emptySquares g' \<noteq> []
       \<and> (\<exists>row col v r'. row < BOARD_SIZE \<and> col < BOARD_SIZE \<and> g' ! row ! col = 0
             \<and> (v = 2 \<or> v = 4)
             \<and> move d (b, r) = (True, b\<lparr>grid := g'[row := (g' ! row)[col := v]]\<rparr>, r'))
       \<and> length (nz (concat (grid (fst (snd (move d (b, r)))))))
           = Suc (length (nz (concat g')))"
proof -
  have wf': "wf_grid g'" using slideFor_res [OF wf res] by simp
  have z: "0 \<in> set (concat g')" using wf res ch by (rule slideFor_changed_zero)
  then have e: "emptySquares g' \<noteq> []" using wf' by (simp add: emptySquares_Nil)
  from spawn_after_slide [OF wf res ch, of r]
  obtain row col v r' where
    add: "addRandomPiece (b\<lparr>grid := g'\<rparr>, r) = (b\<lparr>grid := g'[row := (g' ! row)[col := v]]\<rparr>, r')"
    and cell: "row < BOARD_SIZE" "col < BOARD_SIZE" "g' ! row ! col = 0"
    and v: "v = 2 \<or> v = 4"
    by blast
  have mv: "move d (b, r) = (True, b\<lparr>grid := g'[row := (g' ! row)[col := v]]\<rparr>, r')"
    using move_after_slide(2) [OF wf res ch, of r] add by simp
  have v0: "v \<noteq> 0" using v by auto
  have "length (nz (concat (grid (fst (snd (move d (b, r)))))))
           = Suc (length (nz (concat g')))"
    using nz_count_spawn [OF wf' cell v0] by (simp add: mv)
  with z e cell v mv show ?thesis by blast
qed

theorem changed_slide_leaves_empty_cell_witness:
  "wf_grid [[2, 2, 4, 8], [16, 32, 64, 128], [2, 4, 8, 16], [32, 64, 128, 256]]
   \<and> slideFor CHR ''l'' [[2, 2, 4, 8], [16, 32, 64, 128], [2, 4, 8, 16], [32, 64, 128, 256]]
       = Some ([[16, 0, 0, 0], [16, 32, 64, 128], [2, 4, 8, 16], [32, 64, 128, 256]], True)
   \<and> 0 \<in> set (concat [[16, 0, 0, 0], [16, 32, 64, 128], [2, 4, 8, 16], [32, 64, 128, 256 :: int]])
   \<and> emptySquares [[16, 0, 0, 0], [16, 32, 64, 128], [2, 4, 8, 16], [32, 64, 128, 256]] \<noteq> []
   \<and> length (nz (concat (grid (fst (snd (move CHR ''l''
         (\<lparr>grid = [[2, 2, 4, 8], [16, 32, 64, 128], [2, 4, 8, 16], [32, 64, 128, 256]],
           winTarget = 256\<rparr>, \<lambda>n. 5))))))) = 14"
proof -
  let ?b = "\<lparr>grid = [[2, 2, 4, 8], [16, 32, 64, 128], [2, 4, 8, 16], [32, 64, 128, 256]],
             winTarget = 256\<rparr>"
  have wf: "wf_grid (grid ?b)" by (simp add: wf_grid_cellsI)
  have res: "slideFor CHR ''l'' (grid ?b)
       = Some ([[16, 0, 0, 0], [16, 32, 64, 128], [2, 4, 8, 16], [32, 64, 128, 256]], True)"
    by code_simp
  have ch: "[[16, 0, 0, 0], [16, 32, 64, 128], [2, 4, 8, 16], [32, 64, 128, 256]] \<noteq> grid ?b"
    by simp
  show ?thesis
    using wf res changed_slide_leaves_empty_cell [OF wf res ch, of "\<lambda>n. 5"] by simp
qed

text \<open>
  C4: for each of the four directions, in either case, \<open>move\<close> returns true exactly when the
  slide changed the grid. Then the outcome is one call of \<open>addRandomPiece\<close> on the slid grid,
  which sets one empty cell of it to 2 or 4; otherwise the board and the random source are
  exactly as before the call.
\<close>

theorem move_spec:
  assumes wf: "wf_grid (grid b)" and d: "d \<in> set ''LRUDlrud''"
  shows "\<exists>g' moved. slideFor d (grid b) = Some (g', moved)
       \<and> fst (move d (b, r)) = (g' \<noteq> grid b)
       \<and> (g' \<noteq> grid b \<longrightarrow>
            move d (b, r) = (True, addRandomPiece (b\<lparr>grid := g'\<rparr>, r))
            \<and> (\<exists>row col v. row < BOARD_SIZE \<and> col < BOARD_SIZE \<and> g' ! row ! col = 0
                 \<and> (v = 2 \<or> v = 4)
                 \<and> grid (fst (snd (move d (b, r)))) = g'[row := (g' ! row)[col := v]]))
       \<and> (g' = grid b \<longrightarrow> move d (b, r) = (False, b, r))"
proof -
  from d obtain g' moved where res: "slideFor d (grid b) = Some (g', moved)"
    by (rule slideFor_Some)
  note after = move_after_slide [OF wf res]
  have "\<exists>row col v. row < BOARD_SIZE \<and> col < BOARD_SIZE \<and> g' ! row ! col = 0
                 \<and> (v = 2 \<or> v = 4)
                 \<and> grid (fst (snd (move d (b, r)))) = g'[row := (g' ! row)[col := v]]"
    if ch: "g' \<noteq> grid b"
  proof -
    from spawn_after_slide [OF wf res ch, of r]
    obtain row col v r' where
      "addRandomPiece (b\<lparr>grid := g'\<rparr>, r) = (b\<lparr>grid := g'[row := (g' ! row)[col := v]]\<rparr>, r')"
      "row < BOARD_SIZE" "col < BOARD_SIZE" "g' ! row ! col = 0" "v = 2 \<or> v = 4"
      by blast
    then show ?thesis using after(2) [OF ch] by auto
  qed
  moreover have "fst (move d (b, r)) = (g' \<noteq> grid b)"
    using after(2,3) by (cases "g' = grid b") simp_all
  ultimately show ?thesis using res after(2,3) by blast
qed

theorem move_spec_witness:
  "wf_grid [[2, 2, 4, 8], [16, 32, 64, 128], [2, 4, 8, 16], [32, 64, 128, 256]]
   \<and> CHR ''l'' \<in> set ''LRUDlrud'' \<and> CHR ''U'' \<in> set ''LRUDlrud''
   \<and> move CHR ''l'' (\<lparr>grid = [[2, 2, 4, 8], [16, 32, 64, 128], [2, 4, 8, 16], [32, 64, 128, 256]],
                        winTarget = 256\<rparr>, \<lambda>n. 5)
       = (True, \<lparr>grid = [[16, 0, 0, 4], [16, 32, 64, 128], [2, 4, 8, 16], [32, 64, 128, 256]],
                  winTarget = 256\<rparr>, \<lambda>n. 5)
   \<and> move CHR ''U'' (\<lparr>grid = [[2, 2, 4, 8], [16, 32, 64, 128], [2, 4, 8, 16], [32, 64, 128, 256]],
                        winTarget = 256\<rparr>, \<lambda>n. 5)
       = (False, \<lparr>grid = [[2, 2, 4, 8], [16, 32, 64, 128], [2, 4, 8, 16], [32, 64, 128, 256]],
                   winTarget = 256\<rparr>, \<lambda>n. 5)"
proof -
  let ?b = "\<lparr>grid = [[2, 2, 4, 8], [16, 32, 64, 128], [2, 4, 8, 16], [32, 64, 128, 256]],
             winTarget = 256\<rparr>"
  have wf: "wf_grid (grid ?b)" by (simp add: wf_grid_cellsI)
  have l: "CHR ''l'' \<in> set ''LRUDlrud''" and u: "CHR ''U'' \<in> set ''LRUDlrud''" by simp_all
  have resl: "slideFor CHR ''l'' (grid ?b)
       = Some ([[16, 0, 0, 0], [16, 32, 64, 128], [2, 4, 8, 16], [32, 64, 128, 256]], True)"
    by code_simp
  have resu: "slideFor CHR ''U'' (grid ?b) = Some (grid ?b, False)"
    by code_simp
  show ?thesis
    using wf l u resl resu move_spec [OF wf l, of "\<lambda>n. 5"] move_spec [OF wf u, of "\<lambda>n. 5"]
    by (simp add: addRandomPiece_def emptySquares_def chooseRandomNumber_def
          getRandomStartingNumber_def BOARD_SIZE_def upt_rec Let_def)
qed

section \<open>Slides keep the cells in the data model\<close>

lemma tile_simps [simp]: "tile 0" "tile 2" "tile 4"
proof -
  show "tile 0" by (simp add: tile_def)
  have "(2::int) = 2 ^ 1" by simp
  then show "tile 2" unfolding tile_def by (metis le_refl)
  have "(4::int) = 2 ^ 2" by simp
  then show "tile 4" unfolding tile_def by (metis one_le_numeral)
qed

lemma tile_double: "tile v \<Longrightarrow> tile (v * 2)"
proof -
  assume "tile v"
  then consider "v = 0" | k where "1 \<le> k" "v = 2 ^ k" by (auto simp: tile_def)
  then show ?thesis
  proof cases
    case 1
    then show ?thesis by simp
  next
    case 2
    then have "1 \<le> Suc k" "v * 2 = 2 ^ Suc k" by simp_all
    then show ?thesis unfolding tile_def by blast
  qed
qed

lemma fold_combineStep_pred:
  assumes "\<And>v. P v \<Longrightarrow> P (v * 2)"
    and "list_all P acc" and "list_all P xs"
  shows "list_all P (fst (fold combineStep xs (acc, m)))"
  using assms(2,3)
proof (induction xs arbitrary: acc m)
  case Nil
  then show ?case by simp
next
  case (Cons x xs)
  obtain acc' m' where s: "combineStep x (acc, m) = (acc', m')"
    by (cases "combineStep x (acc, m)")
  have "list_all P acc'"
  proof (cases "x \<noteq> 0 \<and> acc \<noteq> [] \<and> last acc = x")
    case True
    then have a: "acc' = butlast acc @ [last acc * 2]"
      using s by (simp add: combineStep_apply)
    from True have "acc \<noteq> []" by simp
    then have "last acc \<in> set acc" by (rule last_in_set)
    then have "P (last acc)" using Cons.prems(1) by (simp add: list_all_iff)
    then have "P (last acc * 2)" by (rule assms(1))
    moreover have "list_all P (butlast acc)"
      using Cons.prems(1) by (auto simp: list_all_iff dest: in_set_butlastD)
    ultimately show ?thesis by (simp add: a)
  next
    case False
    then have "acc' = acc \<or> acc' = acc @ [x]"
      using s by (auto simp: combineStep_apply split: if_splits)
    then show ?thesis using Cons.prems by auto
  qed
  moreover have "list_all P xs" using Cons.prems(2) by simp
  ultimately have "list_all P (fst (fold combineStep xs (acc', m')))"
    by (rule Cons.IH)
  then show ?case by (simp add: s)
qed

lemma tile_rowLeft:
  assumes "length row = BOARD_SIZE" and "list_all tile row"
  shows "list_all tile (rowLeft row)"
proof -
  have "list_all tile (collapse row)"
    unfolding collapse_def
    by (rule fold_combineStep_pred [where P = tile]) (simp_all add: tile_double assms(2))
  then show ?thesis
    by (auto simp: rowLeft_eq [OF assms(1)] pad_eq list_all_iff)
qed

lemma tile_map_rowLeft:
  assumes "wf_grid g" and "list_all tile (concat g)"
  shows "list_all tile (concat (map rowLeft g))"
proof -
  have "list_all tile (rowLeft row)" if "row \<in> set g" for row
  proof -
    have "length row = BOARD_SIZE" using assms(1) that by (simp add: wf_grid_def list_all_iff)
    moreover have "list_all tile row" using assms(2) that by (auto simp: list_all_iff)
    ultimately show ?thesis by (rule tile_rowLeft)
  qed
  then show ?thesis by (auto simp: list_all_iff)
qed

lemma tile_rotateBoard:
  "wf_grid g \<Longrightarrow> list_all tile (concat (rotateBoard c g)) = list_all tile (concat g)"
  unfolding list_all_iff by (simp only: set_concat_rotateBoard)

lemma tile_slideFor:
  assumes wf: "wf_grid g" and t: "list_all tile (concat g)"
    and res: "slideFor d g = Some (g', moved)"
  shows "list_all tile (concat g')"
proof -
  have wfr: "wf_grid (rotateBoard c h)" if "wf_grid h" for c h
    using that by (rule wf_grid_rotateBoard)
  have step: "list_all tile (concat (post (map rowLeft (pre g))))"
    if "wf_grid (pre g)" "list_all tile (concat (pre g))"
       "\<And>h. wf_grid h \<Longrightarrow> list_all tile (concat (post h)) = list_all tile (concat h)"
    for pre post :: "grid \<Rightarrow> grid"
    using that tile_map_rowLeft [of "pre g"] wf_grid_map_rowLeft [of "pre g"] by simp
  from res consider
      (L) "slidePiecesLeft g = (g', moved)" | (R) "slidePiecesRight g = (g', moved)"
    | (U) "slidePiecesUp g = (g', moved)" | (D) "slidePiecesDown g = (g', moved)"
    by (auto simp: slideFor_def Let_def split: if_splits)
  then show ?thesis
  proof cases
    case L
    then show ?thesis using tile_map_rowLeft [OF wf t] by (simp add: slidePiecesLeft_eq [OF wf])
  next
    case R
    then have "g' = rotateBoard True (rotateBoard True
                 (map rowLeft (rotateBoard True (rotateBoard True g))))"
      using slidePiecesRight_res(1) [OF wf] by simp
    then show ?thesis
      using step [of "\<lambda>g. rotateBoard True (rotateBoard True g)"
                     "\<lambda>g. rotateBoard True (rotateBoard True g)"] wf t
      by (simp add: wfr tile_rotateBoard)
  next
    case U
    then have "g' = rotateBoard False (map rowLeft (rotateBoard True g))"
      using slidePiecesUp_res(1) [OF wf] by simp
    then show ?thesis
      using step [of "rotateBoard True" "rotateBoard False"] wf t
      by (simp add: wfr tile_rotateBoard)
  next
    case D
    then have "g' = rotateBoard True (map rowLeft (rotateBoard False g))"
      using slidePiecesDown_res(1) [OF wf] by simp
    then show ?thesis
      using step [of "rotateBoard False" "rotateBoard True"] wf t
      by (simp add: wfr tile_rotateBoard)
  qed
qed

section \<open>The slide to the left and the merge-once rule\<close>








section \<open>Sliding twice\<close>

lemma horizontalPair_cells:
  "horizontalPair [[a, b, c, d], [e, f, h, i], [j, k, l, m], [n, p, q, s]] =
     ((a \<noteq> 0 \<and> a = b) \<or> (b \<noteq> 0 \<and> b = c) \<or> (c \<noteq> 0 \<and> c = d)
    \<or> (e \<noteq> 0 \<and> e = f) \<or> (f \<noteq> 0 \<and> f = h) \<or> (h \<noteq> 0 \<and> h = i)
    \<or> (j \<noteq> 0 \<and> j = k) \<or> (k \<noteq> 0 \<and> k = l) \<or> (l \<noteq> 0 \<and> l = m)
    \<or> (n \<noteq> 0 \<and> n = p) \<or> (p \<noteq> 0 \<and> p = q) \<or> (q \<noteq> 0 \<and> q = s))"
  by (simp add: horizontalPair_def BOARD_SIZE_def upt_rec disj_ac)

lemma verticalPair_cells:
  "verticalPair [[a, b, c, d], [e, f, h, i], [j, k, l, m], [n, p, q, s]] =
     ((a \<noteq> 0 \<and> a = e) \<or> (e \<noteq> 0 \<and> e = j) \<or> (j \<noteq> 0 \<and> j = n)
    \<or> (b \<noteq> 0 \<and> b = f) \<or> (f \<noteq> 0 \<and> f = k) \<or> (k \<noteq> 0 \<and> k = p)
    \<or> (c \<noteq> 0 \<and> c = h) \<or> (h \<noteq> 0 \<and> h = l) \<or> (l \<noteq> 0 \<and> l = q)
    \<or> (d \<noteq> 0 \<and> d = i) \<or> (i \<noteq> 0 \<and> i = m) \<or> (m \<noteq> 0 \<and> m = s))"
  by (simp add: verticalPair_def BOARD_SIZE_def upt_rec disj_ac)


lemma horizontalPair_rotate_twice:
  assumes "wf_grid g"
  shows "horizontalPair (rotateBoard True (rotateBoard True g)) = horizontalPair g"
  using assms
  by (elim wf_grid_cellsE) (auto simp add: rotate_ccw_cells horizontalPair_cells)

lemma horizontalPair_rotate_ccw:
  assumes "wf_grid g"
  shows "horizontalPair (rotateBoard True g) = verticalPair g"
  using assms
  by (elim wf_grid_cellsE) (auto simp add: rotate_ccw_cells horizontalPair_cells verticalPair_cells)

lemma horizontalPair_rotate_cw:
  assumes "wf_grid g"
  shows "horizontalPair (rotateBoard False g) = verticalPair g"
  using assms
  by (elim wf_grid_cellsE) (auto simp add: rotate_cw_cells horizontalPair_cells verticalPair_cells)

text \<open>A row is left alone exactly when it is packed to the left and has no equal neighbours.\<close>

lemma rowLeft_fixed_iff:
  assumes len: "length row = BOARD_SIZE"
  shows "(rowLeft row = row) = (distinct_adj (nz row) \<and> pad (nz row) = row)"
proof
  assume fixed: "rowLeft row = row"
  then have "pad (collapse row) = row" using len by (simp add: rowLeft_eq)
  then have nomerge: "\<not> snd (fold combineStep row ([], False))"
    using merged_changes [of row] by blast
  then have c: "collapse row = nz row"
    using fold_combineStep_unmerged [of row "[]"] by (simp add: collapse_def)
  have "distinct_adj (nz row)"
    using nomerge by (simp add: fold_combineStep_merged)
  moreover have "pad (nz row) = row"
    using fixed len by (simp add: rowLeft_eq c)
  ultimately show "distinct_adj (nz row) \<and> pad (nz row) = row" by simp
next
  assume a: "distinct_adj (nz row) \<and> pad (nz row) = row"
  then have "\<not> snd (fold combineStep row ([], False))"
    by (simp add: fold_combineStep_merged)
  then have "collapse row = nz row"
    using fold_combineStep_unmerged [of row "[]"] by (simp add: collapse_def)
  then show "rowLeft row = row" using a len by (simp add: rowLeft_eq)
qed

lemma rowLeft_packed:
  assumes "length row = BOARD_SIZE"
  shows "pad (nz (rowLeft row)) = rowLeft row"
  by (simp add: rowLeft_eq [OF assms] nz_pad nz_collapse)

lemma packed_pairs:
  assumes "pad (nz [a, b, c, d]) = [a, b, c, d]"
  shows "(\<not> distinct_adj (nz [a, b, c, d]))
           = ((a \<noteq> 0 \<and> a = b) \<or> (b \<noteq> 0 \<and> b = c) \<or> (c \<noteq> 0 \<and> c = d))"
  using assms
  by (cases "a = 0"; cases "b = 0"; cases "c = 0"; cases "d = 0")
     (auto simp: pad_eq BOARD_SIZE_def)

text \<open>
  On a grid whose rows are packed to the left, the slide to the left changes something
  exactly when a row has two equal non-zero neighbours.
\<close>

lemma packed_slide_changes:
  assumes wf: "wf_grid g" and packed: "\<And>row. row \<in> set g \<Longrightarrow> pad (nz row) = row"
  shows "(map rowLeft g \<noteq> g) = horizontalPair g"
proof -
  from wf obtain a b c d e f h i j k l m n p q s
    where g: "g = [[a, b, c, d], [e, f, h, i], [j, k, l, m], [n, p, q, s]]"
    by (rule wf_grid_cellsE)
  have row: "(rowLeft [x, y, z, w] \<noteq> [x, y, z, w])
               = ((x \<noteq> 0 \<and> x = y) \<or> (y \<noteq> 0 \<and> y = z) \<or> (z \<noteq> 0 \<and> z = w))"
    if "[x, y, z, w] \<in> set g" for x y z w
  proof -
    have pk: "pad (nz [x, y, z, w]) = [x, y, z, w]" using that by (rule packed)
    have "length [x, y, z, w] = BOARD_SIZE" by (simp add: BOARD_SIZE_def)
    then have "(rowLeft [x, y, z, w] \<noteq> [x, y, z, w]) = (\<not> distinct_adj (nz [x, y, z, w]))"
      using pk by (simp only: rowLeft_fixed_iff) simp
    then show ?thesis using packed_pairs [OF pk] by simp
  qed
  have "(map rowLeft g \<noteq> g) =
          (rowLeft [a, b, c, d] \<noteq> [a, b, c, d] \<or> rowLeft [e, f, h, i] \<noteq> [e, f, h, i]
           \<or> rowLeft [j, k, l, m] \<noteq> [j, k, l, m] \<or> rowLeft [n, p, q, s] \<noteq> [n, p, q, s])"
    unfolding g by simp
  also have "\<dots> = horizontalPair g"
    unfolding horizontalPair_cells g
    using row [of a b c d] row [of e f h i] row [of j k l m] row [of n p q s]
    by (simp add: g)
  finally show ?thesis .
qed


lemma second_pass:
  assumes "wf_grid G"
  shows "(map rowLeft (map rowLeft G) \<noteq> map rowLeft G) = horizontalPair (map rowLeft G)"
proof (rule packed_slide_changes)
  show "wf_grid (map rowLeft G)" using assms by (rule wf_grid_map_rowLeft)
  fix row assume "row \<in> set (map rowLeft G)"
  then obtain r where "r \<in> set G" and row: "row = rowLeft r" by auto
  then have "length r = BOARD_SIZE" using assms by (simp add: wf_grid_def list_all_iff)
  then show "pad (nz row) = row" unfolding row by (rule rowLeft_packed)
qed

lemma twice_Left:
  assumes wf: "wf_grid g" and r1: "slidePiecesLeft g = (g1, m1)"
    and r2: "slidePiecesLeft g1 = (g2, m2)"
  shows "m2 = (g2 \<noteq> g1) \<and> (g2 \<noteq> g1) = horizontalPair g1"
proof -
  have g1: "g1 = map rowLeft g" using r1 by (simp add: slidePiecesLeft_eq [OF wf])
  have wf1: "wf_grid g1" unfolding g1 using wf by (rule wf_grid_map_rowLeft)
  have "g2 = map rowLeft g1" "m2 = (g2 \<noteq> g1)"
    using r2 by (auto simp: slidePiecesLeft_eq [OF wf1])
  then show ?thesis using second_pass [OF wf] by (simp add: g1)
qed

lemma twice_Right:
  assumes wf: "wf_grid g" and r1: "slidePiecesRight g = (g1, m1)"
    and r2: "slidePiecesRight g1 = (g2, m2)"
  shows "m2 = (g2 \<noteq> g1) \<and> (g2 \<noteq> g1) = horizontalPair g1"
proof -
  let ?pre = "\<lambda>g. rotateBoard True (rotateBoard True g)"
  let ?G = "map rowLeft (?pre g)"
  have wfp: "wf_grid (?pre g)" using wf by (simp add: wf_grid_rotateBoard)
  have wfG: "wf_grid ?G" using wfp by (rule wf_grid_map_rowLeft)
  have g1: "g1 = ?pre ?G" and wf1: "wf_grid g1"
    using r1 slidePiecesRight_res(1,2) [OF wf] by auto
  have frame: "?pre g1 = ?G" unfolding g1 using wfG by (rule rotate_ccw_4)
  have m2: "m2 = (g2 \<noteq> g1)" and ch: "(g2 \<noteq> g1) = (map rowLeft (?pre g1) \<noteq> ?pre g1)"
    using r2 slidePiecesRight_res(1,3) [OF wf1] by auto
  have "(map rowLeft (?pre g1) \<noteq> ?pre g1) = horizontalPair (?pre g1)"
    unfolding frame using wfp by (rule second_pass)
  also have "\<dots> = horizontalPair g1" using wf1 by (rule horizontalPair_rotate_twice)
  finally show ?thesis using m2 ch by simp
qed

lemma twice_Up:
  assumes wf: "wf_grid g" and r1: "slidePiecesUp g = (g1, m1)"
    and r2: "slidePiecesUp g1 = (g2, m2)"
  shows "m2 = (g2 \<noteq> g1) \<and> (g2 \<noteq> g1) = verticalPair g1"
proof -
  let ?G = "map rowLeft (rotateBoard True g)"
  have wfp: "wf_grid (rotateBoard True g)" using wf by (simp add: wf_grid_rotateBoard)
  have wfG: "wf_grid ?G" using wfp by (rule wf_grid_map_rowLeft)
  have g1: "g1 = rotateBoard False ?G" and wf1: "wf_grid g1"
    using r1 slidePiecesUp_res(1,2) [OF wf] by auto
  have frame: "rotateBoard True g1 = ?G" unfolding g1 using wfG by (rule rotate_ccw_cw)
  have m2: "m2 = (g2 \<noteq> g1)"
    and ch: "(g2 \<noteq> g1) = (map rowLeft (rotateBoard True g1) \<noteq> rotateBoard True g1)"
    using r2 slidePiecesUp_res(1,3) [OF wf1] by auto
  have "(map rowLeft (rotateBoard True g1) \<noteq> rotateBoard True g1)
          = horizontalPair (rotateBoard True g1)"
    unfolding frame using wfp by (rule second_pass)
  also have "\<dots> = verticalPair g1" using wf1 by (rule horizontalPair_rotate_ccw)
  finally show ?thesis using m2 ch by simp
qed

lemma twice_Down:
  assumes wf: "wf_grid g" and r1: "slidePiecesDown g = (g1, m1)"
    and r2: "slidePiecesDown g1 = (g2, m2)"
  shows "m2 = (g2 \<noteq> g1) \<and> (g2 \<noteq> g1) = verticalPair g1"
proof -
  let ?G = "map rowLeft (rotateBoard False g)"
  have wfp: "wf_grid (rotateBoard False g)" using wf by (simp add: wf_grid_rotateBoard)
  have wfG: "wf_grid ?G" using wfp by (rule wf_grid_map_rowLeft)
  have g1: "g1 = rotateBoard True ?G" and wf1: "wf_grid g1"
    using r1 slidePiecesDown_res(1,2) [OF wf] by auto
  have frame: "rotateBoard False g1 = ?G" unfolding g1 using wfG by (rule rotate_cw_ccw)
  have m2: "m2 = (g2 \<noteq> g1)"
    and ch: "(g2 \<noteq> g1) = (map rowLeft (rotateBoard False g1) \<noteq> rotateBoard False g1)"
    using r2 slidePiecesDown_res(1,3) [OF wf1] by auto
  have "(map rowLeft (rotateBoard False g1) \<noteq> rotateBoard False g1)
          = horizontalPair (rotateBoard False g1)"
    unfolding frame using wfp by (rule second_pass)
  also have "\<dots> = verticalPair g1" using wf1 by (rule horizontalPair_rotate_cw)
  finally show ?thesis using m2 ch by simp
qed

text \<open>
  C2, as the code has it: a second slide in the same direction can change the grid again.
  To the left, the row 2, 2, 2, 2 becomes 4, 4, 0, 0 and then 8, 0, 0, 0; both slides report
  a change.
\<close>

theorem second_slide_counterexample:
  "slideFor CHR ''L'' [[2, 2, 2, 2], [0, 0, 0, 0], [0, 0, 0, 0], [0, 0, 0, 0]]
     = Some ([[4, 4, 0, 0], [0, 0, 0, 0], [0, 0, 0, 0], [0, 0, 0, 0]], True)
   \<and> slideFor CHR ''L'' [[4, 4, 0, 0], [0, 0, 0, 0], [0, 0, 0, 0], [0, 0, 0, 0]]
     = Some ([[8, 0, 0, 0], [0, 0, 0, 0], [0, 0, 0, 0], [0, 0, 0, 0]], True)"
  by code_simp

text \<open>
  C2, amended: the second of two slides in the same direction, with no spawn between them,
  reports a change exactly when it changes the grid, and it changes the grid exactly when the
  grid left by the first slide has two equal non-zero cells next to each other along the
  direction of the move: in a row for left and right, in a column for up and down.
\<close>

theorem second_slide:
  assumes wf: "wf_grid g" and r1: "slideFor d g = Some (g1, m1)"
    and r2: "slideFor d g1 = Some (g2, m2)"
  shows "m2 = (g2 \<noteq> g1)
       \<and> (g2 \<noteq> g1) = (if d \<in> set ''LRlr'' then horizontalPair g1 else verticalPair g1)"
proof -
  from r1 have d: "d \<in> set ''LRUDlrud''"
    using slideFor_None [of d g] by auto
  consider (L) "toupper d = CHR ''L''" | (R) "toupper d = CHR ''R''"
    | (U) "toupper d = CHR ''U''" | (D) "toupper d = CHR ''D''"
    using d by (auto simp: toupper_L toupper_R toupper_U toupper_D)
  then show ?thesis
  proof cases
    case L
    then have "d \<in> set ''LRlr''" by (auto simp: toupper_L)
    moreover from L r1 r2 have "slidePiecesLeft g = (g1, m1)" "slidePiecesLeft g1 = (g2, m2)"
      by (simp_all add: slideFor_def)
    ultimately show ?thesis using twice_Left [OF wf, of g1 m1 g2 m2] by simp
  next
    case R
    then have "d \<in> set ''LRlr''" by (auto simp: toupper_R)
    moreover from R r1 r2 have "slidePiecesRight g = (g1, m1)" "slidePiecesRight g1 = (g2, m2)"
      by (simp_all add: slideFor_def)
    ultimately show ?thesis using twice_Right [OF wf, of g1 m1 g2 m2] by simp
  next
    case U
    then have "d \<notin> set ''LRlr''" by (auto simp: toupper_U)
    moreover from U r1 r2 have "slidePiecesUp g = (g1, m1)" "slidePiecesUp g1 = (g2, m2)"
      by (simp_all add: slideFor_def)
    ultimately show ?thesis using twice_Up [OF wf, of g1 m1 g2 m2] by simp
  next
    case D
    then have "d \<notin> set ''LRlr''" by (auto simp: toupper_D)
    moreover from D r1 r2 have "slidePiecesDown g = (g1, m1)" "slidePiecesDown g1 = (g2, m2)"
      by (simp_all add: slideFor_def)
    ultimately show ?thesis using twice_Down [OF wf, of g1 m1 g2 m2] by simp
  qed
qed

theorem second_slide_witness:
  "wf_grid [[2, 0, 2, 4], [0, 0, 0, 0], [4, 0, 0, 0], [4, 0, 0, 2]]
   \<and> slideFor CHR ''d'' [[2, 0, 2, 4], [0, 0, 0, 0], [4, 0, 0, 0], [4, 0, 0, 2]]
       = Some ([[0, 0, 0, 0], [0, 0, 0, 0], [2, 0, 0, 4], [8, 0, 2, 2]], True)
   \<and> slideFor CHR ''d'' [[0, 0, 0, 0], [0, 0, 0, 0], [2, 0, 0, 4], [8, 0, 2, 2]]
       = Some ([[0, 0, 0, 0], [0, 0, 0, 0], [2, 0, 0, 4], [8, 0, 2, 2]], False)
   \<and> \<not> verticalPair [[0, 0, 0, 0], [0, 0, 0, 0], [2, 0, 0, 4], [8, 0, 2, 2]]
   \<and> horizontalPair [[0, 0, 0, 0], [0, 0, 0, 0], [2, 0, 0, 4], [8, 0, 2, 2]]"
proof -
  have wf: "wf_grid [[2, 0, 2, 4], [0, 0, 0, 0], [4, 0, 0, 0], [4, 0, 0, 2]]"
    by (rule wf_grid_cellsI)
  have r1: "slideFor CHR ''d'' [[2, 0, 2, 4], [0, 0, 0, 0], [4, 0, 0, 0], [4, 0, 0, 2]]
       = Some ([[0, 0, 0, 0], [0, 0, 0, 0], [2, 0, 0, 4], [8, 0, 2, 2]], True)"
    by code_simp
  have r2: "slideFor CHR ''d'' [[0, 0, 0, 0], [0, 0, 0, 0], [2, 0, 0, 4], [8, 0, 2, 2]]
       = Some ([[0, 0, 0, 0], [0, 0, 0, 0], [2, 0, 0, 4], [8, 0, 2, 2]], False)"
    by code_simp
  have h: "horizontalPair [[0, 0, 0, 0], [0, 0, 0, 0], [2, 0, 0, 4], [8, 0, 2, 2]]"
    by (simp add: horizontalPair_cells)
  show ?thesis using wf r1 r2 h second_slide [OF wf r1 r2] by simp
qed

section \<open>The end of the game\<close>

lemma isGameOver_iff:
  "isGameOver g =
     ((\<forall>i<BOARD_SIZE. \<forall>j<BOARD_SIZE. g ! i ! j \<noteq> 0)
      \<and> (\<forall>i<BOARD_SIZE. \<forall>j<BOARD_SIZE - 1. g ! i ! j \<noteq> g ! i ! (j + 1))
      \<and> (\<forall>i<BOARD_SIZE - 1. \<forall>j<BOARD_SIZE. g ! i ! j \<noteq> g ! (i + 1) ! j))"
proof -
  have lt: "x < BOARD_SIZE - 1 \<Longrightarrow> x < BOARD_SIZE" for x by simp
  have "isGameOver g =
     (\<forall>i<BOARD_SIZE. \<forall>j<BOARD_SIZE. g ! i ! j \<noteq> 0
        \<and> (j < BOARD_SIZE - 1 \<longrightarrow> g ! i ! j \<noteq> g ! i ! (j + 1))
        \<and> (i < BOARD_SIZE - 1 \<longrightarrow> g ! i ! j \<noteq> g ! (i + 1) ! j))"
    unfolding isGameOver_def list_all_iff by (simp add: Ball_def)
  also have "\<dots> =
     ((\<forall>i<BOARD_SIZE. \<forall>j<BOARD_SIZE. g ! i ! j \<noteq> 0)
      \<and> (\<forall>i<BOARD_SIZE. \<forall>j<BOARD_SIZE - 1. g ! i ! j \<noteq> g ! i ! (j + 1))
      \<and> (\<forall>i<BOARD_SIZE - 1. \<forall>j<BOARD_SIZE. g ! i ! j \<noteq> g ! (i + 1) ! j))"
    using lt by meson
  finally show ?thesis .
qed

lemma isGameOver_cells:
  "isGameOver [[a, b, c, d], [e, f, h, i], [j, k, l, m], [n, p, q, s]] =
     ((a \<noteq> 0 \<and> b \<noteq> 0 \<and> c \<noteq> 0 \<and> d \<noteq> 0 \<and> a \<noteq> b \<and> b \<noteq> c \<and> c \<noteq> d)
    \<and> (e \<noteq> 0 \<and> f \<noteq> 0 \<and> h \<noteq> 0 \<and> i \<noteq> 0 \<and> e \<noteq> f \<and> f \<noteq> h \<and> h \<noteq> i)
    \<and> (j \<noteq> 0 \<and> k \<noteq> 0 \<and> l \<noteq> 0 \<and> m \<noteq> 0 \<and> j \<noteq> k \<and> k \<noteq> l \<and> l \<noteq> m)
    \<and> (n \<noteq> 0 \<and> p \<noteq> 0 \<and> q \<noteq> 0 \<and> s \<noteq> 0 \<and> n \<noteq> p \<and> p \<noteq> q \<and> q \<noteq> s)
    \<and> (a \<noteq> e \<and> e \<noteq> j \<and> j \<noteq> n) \<and> (b \<noteq> f \<and> f \<noteq> k \<and> k \<noteq> p)
    \<and> (c \<noteq> h \<and> h \<noteq> l \<and> l \<noteq> q) \<and> (d \<noteq> i \<and> i \<noteq> m \<and> m \<noteq> s))"
  by (simp add: isGameOver_def BOARD_SIZE_def upt_rec) blast

lemma packed4:
  "(pad (nz [a, b, c, d]) = [a, b, c, d])
     = ((a = 0 \<longrightarrow> b = 0) \<and> (b = 0 \<longrightarrow> c = 0) \<and> (c = 0 \<longrightarrow> d = 0))"
  by (cases "a = 0"; cases "b = 0"; cases "c = 0"; cases "d = 0")
     (auto simp: pad_eq BOARD_SIZE_def numeral_eq_Suc)

lemma stuck4:
  "(rowLeft [a, b, c, d] = [a, b, c, d] \<and> rowLeft [d, c, b, a] = [d, c, b, a])
     = stuckLine a b c d"
proof -
  have l: "length [a, b, c, d] = BOARD_SIZE" "length [d, c, b, a] = BOARD_SIZE"
    by (simp_all add: BOARD_SIZE_def)
  show ?thesis
    unfolding rowLeft_fixed_iff [OF l(1)] rowLeft_fixed_iff [OF l(2)] packed4 stuckLine_def
    by (cases "a = 0"; cases "b = 0"; cases "c = 0"; cases "d = 0") auto
qed

lemma stuckLine_zero:
  assumes "stuckLine x y z w"
  shows "(y = 0) = (x = 0)" "(z = 0) = (x = 0)" "(w = 0) = (x = 0)"
  using assms by (auto simp: stuckLine_def)

lemma stuckLine_full:
  assumes "stuckLine x y z w" and "x \<noteq> 0"
  shows "x \<noteq> y \<and> y \<noteq> z \<and> z \<noteq> w"
  using assms by (auto simp: stuckLine_def)

lemma stuckLine_fullI:
  "x \<noteq> 0 \<Longrightarrow> y \<noteq> 0 \<Longrightarrow> z \<noteq> 0 \<Longrightarrow> w \<noteq> 0 \<Longrightarrow> x \<noteq> y \<Longrightarrow> y \<noteq> z \<Longrightarrow> z \<noteq> w
     \<Longrightarrow> stuckLine x y z w"
  by (simp add: stuckLine_def)

text \<open>
  On a grid with a non-zero cell, all four rows and all four columns are stuck exactly when
  the grid is full with no two equal neighbours.
\<close>

lemma terminal_cells:
  assumes some: "\<exists>v\<in>set (concat [[a, b, c, d], [e, f, h, i], [j, k, l, m], [n, p, q, s]]). v \<noteq> 0"
  shows "(stuckLine a b c d \<and> stuckLine e f h i \<and> stuckLine j k l m \<and> stuckLine n p q s
          \<and> stuckLine a e j n \<and> stuckLine b f k p \<and> stuckLine c h l q \<and> stuckLine d i m s)
         = isGameOver [[a, b, c, d], [e, f, h, i], [j, k, l, m], [n, p, q, s]]"
proof
  assume S: "stuckLine a b c d \<and> stuckLine e f h i \<and> stuckLine j k l m \<and> stuckLine n p q s
          \<and> stuckLine a e j n \<and> stuckLine b f k p \<and> stuckLine c h l q \<and> stuckLine d i m s"
  then have r1: "stuckLine a b c d" and r2: "stuckLine e f h i" and r3: "stuckLine j k l m"
    and r4: "stuckLine n p q s" and c1: "stuckLine a e j n" and c2: "stuckLine b f k p"
    and c3: "stuckLine c h l q" and c4: "stuckLine d i m s"
    by simp_all
  note z1 = stuckLine_zero [OF r1] and zc = stuckLine_zero [OF c1]
  have ze: "(e = 0) = (a = 0)" and zj: "(j = 0) = (a = 0)" and zn: "(n = 0) = (a = 0)"
    using zc by simp_all
  note z2 = stuckLine_zero [OF r2, unfolded ze] and z3 = stuckLine_zero [OF r3, unfolded zj]
    and z4 = stuckLine_zero [OF r4, unfolded zn]
  have a: "a \<noteq> 0"
  proof
    assume "a = 0"
    then have "b = 0" "c = 0" "d = 0" "e = 0" "f = 0" "h = 0" "i = 0" "j = 0" "k = 0"
      "l = 0" "m = 0" "n = 0" "p = 0" "q = 0" "s = 0"
      using z1 z2 z3 z4 ze zj zn by simp_all
    with \<open>a = 0\<close> some show False by simp
  qed
  then have nz: "b \<noteq> 0" "c \<noteq> 0" "d \<noteq> 0" "e \<noteq> 0" "f \<noteq> 0" "h \<noteq> 0" "i \<noteq> 0" "j \<noteq> 0" "k \<noteq> 0"
      "l \<noteq> 0" "m \<noteq> 0" "n \<noteq> 0" "p \<noteq> 0" "q \<noteq> 0" "s \<noteq> 0"
    using z1 z2 z3 z4 ze zj zn by simp_all
  show "isGameOver [[a, b, c, d], [e, f, h, i], [j, k, l, m], [n, p, q, s]]"
    unfolding isGameOver_cells
    using a nz stuckLine_full [OF r1 a] stuckLine_full [OF r2 nz(4)] stuckLine_full [OF r3 nz(8)]
      stuckLine_full [OF r4 nz(12)] stuckLine_full [OF c1 a] stuckLine_full [OF c2 nz(1)]
      stuckLine_full [OF c3 nz(2)] stuckLine_full [OF c4 nz(3)]
    by simp
next
  assume "isGameOver [[a, b, c, d], [e, f, h, i], [j, k, l, m], [n, p, q, s]]"
  then show "stuckLine a b c d \<and> stuckLine e f h i \<and> stuckLine j k l m \<and> stuckLine n p q s
          \<and> stuckLine a e j n \<and> stuckLine b f k p \<and> stuckLine c h l q \<and> stuckLine d i m s"
    unfolding isGameOver_cells by (intro conjI stuckLine_fullI) simp_all
qed


lemma fst_move:
  "fst (move d (b, r)) = (case slideFor d (grid b) of None \<Rightarrow> False | Some (g', moved) \<Rightarrow> moved)"
  by (simp add: move_def split_beta split: option.splits)

lemma slideFor_letters:
  "slideFor CHR ''L'' g = Some (slidePiecesLeft g)" "slideFor CHR ''l'' g = Some (slidePiecesLeft g)"
  "slideFor CHR ''R'' g = Some (slidePiecesRight g)" "slideFor CHR ''r'' g = Some (slidePiecesRight g)"
  "slideFor CHR ''U'' g = Some (slidePiecesUp g)" "slideFor CHR ''u'' g = Some (slidePiecesUp g)"
  "slideFor CHR ''D'' g = Some (slidePiecesDown g)" "slideFor CHR ''d'' g = Some (slidePiecesDown g)"
  by (simp_all add: slideFor_def toupper_L toupper_R toupper_U toupper_D)

text \<open>No move returns true exactly when the slide to the left fixes the grid in all four frames.\<close>

lemma no_move_iff:
  assumes wf: "wf_grid (grid b)"
  shows "(\<forall>d\<in>set ''LRUDlrud''. \<not> fst (move d (b, r)))
       = (map rowLeft (grid b) = grid b
          \<and> map rowLeft (rotateBoard True (rotateBoard True (grid b)))
              = rotateBoard True (rotateBoard True (grid b))
          \<and> map rowLeft (rotateBoard True (grid b)) = rotateBoard True (grid b)
          \<and> map rowLeft (rotateBoard False (grid b)) = rotateBoard False (grid b))"
proof -
  have L: "snd (slidePiecesLeft (grid b)) = (map rowLeft (grid b) \<noteq> grid b)"
    by (simp add: slidePiecesLeft_eq [OF wf])
  have R: "snd (slidePiecesRight (grid b))
      = (map rowLeft (rotateBoard True (rotateBoard True (grid b)))
          \<noteq> rotateBoard True (rotateBoard True (grid b)))"
    using slidePiecesRight_res(1,3) [OF wf] by simp
  have U: "snd (slidePiecesUp (grid b))
      = (map rowLeft (rotateBoard True (grid b)) \<noteq> rotateBoard True (grid b))"
    using slidePiecesUp_res(1,3) [OF wf] by simp
  have D: "snd (slidePiecesDown (grid b))
      = (map rowLeft (rotateBoard False (grid b)) \<noteq> rotateBoard False (grid b))"
    using slidePiecesDown_res(1,3) [OF wf] by simp
  show ?thesis
    by (simp add: fst_move slideFor_letters split_beta L R U D) blast
qed

lemma fixed_frames_cells:
  fixes a b c d e f h i j k l m n p q s :: int
  defines "g \<equiv> [[a, b, c, d], [e, f, h, i], [j, k, l, m], [n, p, q, s]]"
  shows "(map rowLeft g = g
          \<and> map rowLeft (rotateBoard True (rotateBoard True g)) = rotateBoard True (rotateBoard True g)
          \<and> map rowLeft (rotateBoard True g) = rotateBoard True g
          \<and> map rowLeft (rotateBoard False g) = rotateBoard False g)
       = (stuckLine a b c d \<and> stuckLine e f h i \<and> stuckLine j k l m \<and> stuckLine n p q s
          \<and> stuckLine a e j n \<and> stuckLine b f k p \<and> stuckLine c h l q \<and> stuckLine d i m s)"
  unfolding g_def stuck4 [symmetric]
  by (simp add: rotate_ccw_cells rotate_cw_cells) blast

lemma no_move_terminal:
  assumes wf: "wf_grid (grid b)" and some: "\<exists>v\<in>set (concat (grid b)). v \<noteq> 0"
  shows "isGameOver (grid b) = (\<forall>d\<in>set ''LRUDlrud''. \<not> fst (move d (b, r)))"
proof -
  from wf obtain a b' c d e f h i j k l m n p q s
    where g: "grid b = [[a, b', c, d], [e, f, h, i], [j, k, l, m], [n, p, q, s]]"
    by (rule wf_grid_cellsE)
  show ?thesis
    unfolding no_move_iff [OF wf]
    unfolding g fixed_frames_cells
    using terminal_cells [of a b' c d e f h i j k l m n p q s] some
    unfolding g by simp
qed

section \<open>Slides and spawns keep a non-zero cell\<close>

lemma fold_combineStep_nonempty:
  assumes "acc \<noteq> [] \<or> (\<exists>v\<in>set xs. v \<noteq> 0)"
  shows "fst (fold combineStep xs (acc, m)) \<noteq> []"
  using assms
proof (induction xs arbitrary: acc m)
  case Nil
  then show ?case by simp
next
  case (Cons x xs)
  obtain acc' m' where s: "combineStep x (acc, m) = (acc', m')"
    by (cases "combineStep x (acc, m)")
  have "acc' \<noteq> [] \<or> (\<exists>v\<in>set xs. v \<noteq> 0)"
    using Cons.prems s by (auto simp: combineStep_apply split: if_splits)
  then have "fst (fold combineStep xs (acc', m')) \<noteq> []" by (rule Cons.IH)
  then show ?case by (simp add: s)
qed

lemma rowLeft_keeps_nonzero:
  assumes len: "length row = BOARD_SIZE" and some: "\<exists>v\<in>set row. v \<noteq> 0"
  shows "\<exists>v\<in>set (rowLeft row). v \<noteq> 0"
proof -
  have "collapse row \<noteq> []"
    unfolding collapse_def using some by (intro fold_combineStep_nonempty) simp
  then obtain v where "v \<in> set (collapse row)" by (cases "collapse row") auto
  moreover from this have "v \<noteq> 0" using collapse_nonzero [of row] by auto
  ultimately show ?thesis by (auto simp: rowLeft_eq [OF len] pad_eq)
qed

lemma map_rowLeft_keeps_nonzero:
  assumes wf: "wf_grid g" and some: "\<exists>v\<in>set (concat g). v \<noteq> 0"
  shows "\<exists>v\<in>set (concat (map rowLeft g)). v \<noteq> 0"
proof -
  from some obtain row v where row: "row \<in> set g" and "v \<in> set row" "v \<noteq> 0" by auto
  then have "\<exists>v\<in>set row. v \<noteq> 0" by blast
  moreover have "length row = BOARD_SIZE" using wf row by (simp add: wf_grid_def list_all_iff)
  ultimately have "\<exists>v\<in>set (rowLeft row). v \<noteq> 0" by (intro rowLeft_keeps_nonzero)
  with row show ?thesis by auto
qed

lemma slideFor_keeps_nonzero:
  assumes wf: "wf_grid g" and some: "\<exists>v\<in>set (concat g). v \<noteq> 0"
    and res: "slideFor d g = Some (g', moved)"
  shows "\<exists>v\<in>set (concat g'). v \<noteq> 0"
proof -
  have wfr: "wf_grid (rotateBoard c h)" if "wf_grid h" for c h
    using that by (rule wf_grid_rotateBoard)
  have step: "\<exists>v\<in>set (concat (post (map rowLeft (pre g)))). v \<noteq> 0"
    if "wf_grid (pre g)" "set (concat (pre g)) = set (concat g)"
       "\<And>h. wf_grid h \<Longrightarrow> set (concat (post h)) = set (concat h)"
    for pre post :: "grid \<Rightarrow> grid"
  proof -
    have "\<exists>v\<in>set (concat (map rowLeft (pre g))). v \<noteq> 0"
      using that(1,2) some by (intro map_rowLeft_keeps_nonzero) simp_all
    moreover have "set (concat (post (map rowLeft (pre g)))) = set (concat (map rowLeft (pre g)))"
      using that(1) by (intro that(3) wf_grid_map_rowLeft)
    ultimately show ?thesis by simp
  qed
  from res consider
      (L) "slidePiecesLeft g = (g', moved)" | (R) "slidePiecesRight g = (g', moved)"
    | (U) "slidePiecesUp g = (g', moved)" | (D) "slidePiecesDown g = (g', moved)"
    by (auto simp: slideFor_def Let_def split: if_splits)
  then show ?thesis
  proof cases
    case L
    then show ?thesis
      using map_rowLeft_keeps_nonzero [OF wf some] by (simp add: slidePiecesLeft_eq [OF wf])
  next
    case R
    then have "g' = rotateBoard True (rotateBoard True
                 (map rowLeft (rotateBoard True (rotateBoard True g))))"
      using slidePiecesRight_res(1) [OF wf] by simp
    then show ?thesis
      using step [of "\<lambda>g. rotateBoard True (rotateBoard True g)"
                     "\<lambda>g. rotateBoard True (rotateBoard True g)"] wf
      by (simp only: wfr set_concat_rotateBoard simp_thms)
  next
    case U
    then have "g' = rotateBoard False (map rowLeft (rotateBoard True g))"
      using slidePiecesUp_res(1) [OF wf] by simp
    then show ?thesis
      using step [of "rotateBoard True" "rotateBoard False"] wf
      by (simp only: wfr set_concat_rotateBoard simp_thms)
  next
    case D
    then have "g' = rotateBoard True (map rowLeft (rotateBoard False g))"
      using slidePiecesDown_res(1) [OF wf] by simp
    then show ?thesis
      using step [of "rotateBoard False" "rotateBoard True"] wf
      by (simp only: wfr set_concat_rotateBoard simp_thms)
  qed
qed

lemma addRandomPiece_keeps_nonzero:
  assumes wf: "wf_grid (grid b)" and some: "\<exists>v\<in>set (concat (grid b)). v \<noteq> 0"
  shows "\<exists>v\<in>set (concat (grid (fst (addRandomPiece (b, r))))). v \<noteq> 0"
proof (cases "0 \<in> set (concat (grid b))")
  case True
  have "length (nz (concat (grid (fst (addRandomPiece (b, r)))))) \<noteq> 0"
    using addRandomPiece_grows(3) [OF wf True, of r] by simp
  then have "nz (concat (grid (fst (addRandomPiece (b, r))))) \<noteq> []" by simp
  then show ?thesis by (simp add: filter_empty_conv)
next
  case False
  then have "emptySquares (grid b) = []" using wf by (simp add: emptySquares_Nil)
  then have "addRandomPiece (b, r) = (b, r)" by (simp add: addRandomPiece_def)
  then show ?thesis using some by simp
qed

section \<open>Merges and the bound on the cells\<close>

lemma merges_trans:
  assumes "merges A B" and "merges B C"
  shows "merges A C"
  using assms(2,1) by (induction rule: merges.induct) (auto intro: merges.merge)

lemma merges_add:
  assumes "merges A B"
  shows "merges (A + C) (B + C)"
  using assms
proof (induction rule: merges.induct)
  case (same M)
  show ?case by (rule merges.same)
next
  case (merge M x N)
  then have "merges (M + C) (add_mset x (add_mset x (N + C)))" by simp
  then have "merges (M + C) (add_mset (x * 2) (N + C))" by (rule merges.merge)
  then show ?case by simp
qed

lemma merges_union:
  assumes "merges A B" and "merges C D"
  shows "merges (A + C) (B + D)"
proof -
  have "merges (A + C) (B + C)" using assms(1) by (rule merges_add)
  moreover have "merges (C + B) (D + B)" using assms(2) by (rule merges_add)
  ultimately show ?thesis by (simp add: merges_trans add.commute)
qed

text \<open>The first inner loop of the slide merges the non-zero cells of a row.\<close>

lemma fold_combineStep_merges:
  "merges (mset acc + mset (nz xs)) (mset (fst (fold combineStep xs (acc, m))))"
proof (induction xs arbitrary: acc m)
  case Nil
  show ?case by (simp add: merges.same)
next
  case (Cons x xs)
  show ?case
  proof (cases "x \<noteq> 0 \<and> acc \<noteq> [] \<and> last acc = x")
    case True
    then have acc: "acc = butlast acc @ [x]" by (metis append_butlast_last_id)
    have step: "fold combineStep (x # xs) (acc, m)
                  = fold combineStep xs (butlast acc @ [x * 2], True)"
      using True by (simp add: combineStep_apply)
    have "mset acc + mset (nz (x # xs))
            = add_mset x (add_mset x (mset (butlast acc) + mset (nz xs)))"
      using True by (subst acc) simp
    moreover have "merges (add_mset x (add_mset x (mset (butlast acc) + mset (nz xs))))
                          (add_mset (x * 2) (mset (butlast acc) + mset (nz xs)))"
      by (rule merges.merge) (rule merges.same)
    moreover have "add_mset (x * 2) (mset (butlast acc) + mset (nz xs))
                     = mset (butlast acc @ [x * 2]) + mset (nz xs)"
      by simp
    ultimately have "merges (mset acc + mset (nz (x # xs)))
                            (mset (butlast acc @ [x * 2]) + mset (nz xs))"
      by simp
    then show ?thesis
      unfolding step using Cons.IH [of "butlast acc @ [x * 2]" True] by (rule merges_trans)
  next
    case False
    show ?thesis
    proof (cases "x = 0")
      case True
      then show ?thesis using Cons.IH [of acc m] by (simp add: combineStep_apply)
    next
      case nonzero: False
      with False have "fold combineStep (x # xs) (acc, m) = fold combineStep xs (acc @ [x], m)"
        by (auto simp: combineStep_apply)
      then show ?thesis using Cons.IH [of "acc @ [x]" m] nonzero by simp
    qed
  qed
qed

lemma rowLeft_merges:
  assumes "length row = BOARD_SIZE"
  shows "merges (mset (nz row)) (mset (nz (rowLeft row)))"
proof -
  have "nz (rowLeft row) = collapse row"
    by (simp add: rowLeft_eq [OF assms] nz_pad nz_collapse)
  then show ?thesis
    using fold_combineStep_merges [of "[]" row False] by (simp add: collapse_def)
qed

lemma map_rowLeft_merges:
  assumes "\<forall>row\<in>set rows. length row = BOARD_SIZE"
  shows "merges (mset (nz (concat rows))) (mset (nz (concat (map rowLeft rows))))"
  using assms
proof (induction rows)
  case Nil
  show ?case by (simp add: merges.same)
next
  case (Cons row rows)
  from Cons.prems have len: "length row = BOARD_SIZE"
    and rest: "\<forall>row\<in>set rows. length row = BOARD_SIZE" by simp_all
  have a: "merges (mset (nz row)) (mset (nz (rowLeft row)))"
    using len by (rule rowLeft_merges)
  have b: "merges (mset (nz (concat rows))) (mset (nz (concat (map rowLeft rows))))"
    using rest by (rule Cons.IH)
  show ?case using merges_union [OF a b] by simp
qed

lemma mset_concat_rotateBoard:
  assumes "wf_grid g"
  shows "mset (concat (rotateBoard ccw g)) = mset (concat g)"
  using assms
  by (cases ccw; elim wf_grid_cellsE) (simp_all add: rotate_ccw_cells rotate_cw_cells)

lemma slideFor_merges:
  assumes wf: "wf_grid g" and res: "slideFor d g = Some (g', moved)"
  shows "merges (mset (nz (concat g))) (mset (nz (concat g')))"
proof -
  have wfr: "wf_grid (rotateBoard c h)" if "wf_grid h" for c h
    using that by (rule wf_grid_rotateBoard)
  have rows: "\<forall>row\<in>set h. length row = BOARD_SIZE" if "wf_grid h" for h
    using that by (simp add: wf_grid_def list_all_iff)
  have nzrot: "mset (nz (concat (rotateBoard c h))) = mset (nz (concat h))" if "wf_grid h" for c h
    using mset_concat_rotateBoard [OF that, of c]
    by (metis mset_filter)
  have step: "merges (mset (nz (concat g))) (mset (nz (concat (post (map rowLeft (pre g))))))"
    if "wf_grid (pre g)" "mset (nz (concat (pre g))) = mset (nz (concat g))"
       "\<And>h. wf_grid h \<Longrightarrow> mset (nz (concat (post h))) = mset (nz (concat h))"
    for pre post :: "grid \<Rightarrow> grid"
  proof -
    have "merges (mset (nz (concat (pre g)))) (mset (nz (concat (map rowLeft (pre g)))))"
      using that(1) by (intro map_rowLeft_merges rows)
    moreover have "mset (nz (concat (post (map rowLeft (pre g)))))
                     = mset (nz (concat (map rowLeft (pre g))))"
      using that(1) by (intro that(3) wf_grid_map_rowLeft)
    ultimately show ?thesis using that(2) by simp
  qed
  from res consider
      (L) "slidePiecesLeft g = (g', moved)" | (R) "slidePiecesRight g = (g', moved)"
    | (U) "slidePiecesUp g = (g', moved)" | (D) "slidePiecesDown g = (g', moved)"
    by (auto simp: slideFor_def Let_def split: if_splits)
  then show ?thesis
  proof cases
    case L
    then have "g' = map rowLeft g" by (simp add: slidePiecesLeft_eq [OF wf])
    then show ?thesis using map_rowLeft_merges [OF rows [OF wf]] by simp
  next
    case R
    then have "g' = rotateBoard True (rotateBoard True
                 (map rowLeft (rotateBoard True (rotateBoard True g))))"
      using slidePiecesRight_res(1) [OF wf] by simp
    then show ?thesis
      using step [of "\<lambda>g. rotateBoard True (rotateBoard True g)"
                     "\<lambda>g. rotateBoard True (rotateBoard True g)"] wf
      by (simp only: wfr nzrot simp_thms)
  next
    case U
    then have "g' = rotateBoard False (map rowLeft (rotateBoard True g))"
      using slidePiecesUp_res(1) [OF wf] by simp
    then show ?thesis
      using step [of "rotateBoard True" "rotateBoard False"] wf
      by (simp only: wfr nzrot simp_thms)
  next
    case D
    then have "g' = rotateBoard True (map rowLeft (rotateBoard False g))"
      using slidePiecesDown_res(1) [OF wf] by simp
    then show ?thesis
      using step [of "rotateBoard False" "rotateBoard True"] wf
      by (simp only: wfr nzrot simp_thms)
  qed
qed

lemma size_filter_mset_mono:
  assumes "\<And>v. P v \<Longrightarrow> Q v"
  shows "size (filter_mset P M) \<le> size (filter_mset Q M)"
  using assms by (induction M) auto

text \<open>Replacing two equal values by their double keeps the bound on the counts.\<close>

lemma merges_bounded:
  assumes "merges M N" and "\<forall>e. size {#v \<in># M. 2 ^ e \<le> v#} \<le> 18 - e"
  shows "\<forall>e. size {#v \<in># N. 2 ^ e \<le> v#} \<le> 18 - e"
  using assms
proof (induction rule: merges.induct)
  case (same M)
  then show ?case .
next
  case (merge M x N)
  then have P: "\<forall>e. size {#v \<in># add_mset x (add_mset x N). (2::int) ^ e \<le> v#} \<le> 18 - e"
    by simp
  show ?case
  proof
    fix e :: nat
    let ?c = "size {#v \<in># N. (2::int) ^ e \<le> v#}"
    consider (big) "(2::int) ^ e \<le> x" | (edge) "\<not> (2::int) ^ e \<le> x" "(2::int) ^ e \<le> x * 2"
      | (small) "\<not> (2::int) ^ e \<le> x * 2"
      by blast
    then show "size {#v \<in># add_mset (x * 2) N. 2 ^ e \<le> v#} \<le> 18 - e"
    proof cases
      case big
      then have "?c + 2 \<le> 18 - e" using P [rule_format, of e] by simp
      then show ?thesis by simp
    next
      case edge
      have "e \<noteq> 0"
      proof
        assume "e = 0"
        with edge show False by simp
      qed
      then obtain e' where e: "e = Suc e'" by (cases e) auto
      with edge(2) have low: "(2::int) ^ e' \<le> x" by simp
      then have "size {#v \<in># N. (2::int) ^ e' \<le> v#} + 2 \<le> 18 - e'"
        using P [rule_format, of e'] by simp
      moreover have "?c \<le> size {#v \<in># N. (2::int) ^ e' \<le> v#}"
      proof (rule size_filter_mset_mono)
        fix v :: int
        assume "2 ^ e \<le> v"
        moreover have "(2::int) ^ e' \<le> 2 ^ e" unfolding e by simp
        ultimately show "2 ^ e' \<le> v" by linarith
      qed
      ultimately have "?c + 1 \<le> 18 - e" unfolding e by linarith
      then show ?thesis using edge(2) by simp
    next
      case small
      have pos: "(0::int) < 2 ^ e" by simp
      have "\<not> (2::int) ^ e \<le> x"
      proof
        assume "(2::int) ^ e \<le> x"
        then have "(2::int) ^ e \<le> x * 2" using pos by linarith
        with small show False by simp
      qed
      then have "?c \<le> 18 - e" using P [rule_format, of e] by simp
      then show ?thesis using small by simp
    qed
  qed
qed

lemma countGe_mset:
  "countGe e xs = size {#v \<in># mset (nz xs). 2 ^ e \<le> v#}"
proof -
  have "filter (\<lambda>v. (2::int) ^ e \<le> v) (nz xs) = filter (\<lambda>v. 2 ^ e \<le> v) xs"
  proof -
    have "(2::int) ^ e \<le> v \<Longrightarrow> v \<noteq> 0" for v
      using zero_less_power [of "2::int" e] by linarith
    then show ?thesis by (auto simp: filter_filter intro!: filter_cong)
  qed
  then have "countGe e xs = length (filter (\<lambda>v. (2::int) ^ e \<le> v) (nz xs))"
    by (simp add: countGe_def)
  also have "\<dots> = size (mset (filter (\<lambda>v. (2::int) ^ e \<le> v) (nz xs)))"
    by (simp only: size_mset)
  also have "\<dots> = size {#v \<in># mset (nz xs). 2 ^ e \<le> v#}"
    by (simp only: mset_filter)
  finally show ?thesis .
qed

lemma bounded_slideFor:
  assumes wf: "wf_grid g" and b: "bounded g" and res: "slideFor d g = Some (g', moved)"
  shows "bounded g'"
proof -
  have "merges (mset (nz (concat g))) (mset (nz (concat g')))"
    using wf res by (rule slideFor_merges)
  moreover have "\<forall>e. size {#v \<in># mset (nz (concat g)). 2 ^ e \<le> v#} \<le> 18 - e"
    using b unfolding bounded_def countGe_mset .
  ultimately have "\<forall>e. size {#v \<in># mset (nz (concat g')). 2 ^ e \<le> v#} \<le> 18 - e"
    by (rule merges_bounded)
  then show ?thesis unfolding bounded_def countGe_mset .
qed

lemma filter_update_same:
  assumes "j < length xs" and "\<not> P (xs ! j)" and "\<not> P v"
  shows "filter P (xs[j := v]) = filter P xs"
proof -
  have "xs = take j xs @ xs ! j # drop (Suc j) xs"
    using assms(1) by (rule id_take_nth_drop)
  then have "filter P xs = filter P (take j xs) @ filter P (drop (Suc j) xs)"
    using assms(2) by (metis filter.simps(2) filter_append)
  moreover have "xs[j := v] = take j xs @ v # drop (Suc j) xs"
    using assms(1) by (rule upd_conv_take_nth_drop)
  ultimately show ?thesis using assms(3) by simp
qed

lemma countGe_le_length: "countGe e xs \<le> length xs"
  by (simp add: countGe_def)

lemma bounded_spawn:
  assumes wf: "wf_grid g" and b: "bounded g"
    and cell: "row < BOARD_SIZE" "col < BOARD_SIZE" "g ! row ! col = 0"
    and v: "v = 2 \<or> v = 4"
  shows "bounded (g[row := (g ! row)[col := v]])"
  unfolding bounded_def
proof
  fix e :: nat
  let ?g' = "g[row := (g ! row)[col := v]]"
  have wf': "wf_grid ?g'" using wf by (rule wf_grid_update)
  show "countGe e (concat ?g') \<le> 18 - e"
  proof (cases "e \<le> 2")
    case True
    have "countGe e (concat ?g') \<le> 16"
      using countGe_le_length [of e "concat ?g'"] wf_grid_length_concat [OF wf'] by simp
    then show ?thesis using True by simp
  next
    case False
    then have "(2::int) ^ 3 \<le> 2 ^ e" by (intro power_increasing) simp_all
    then have big: "(8::int) \<le> 2 ^ e" by simp
    have r: "row < length g" and c: "col < length (g ! row)"
      using wf cell(1,2) by (simp_all add: wf_grid_def list_all_length)
    have "filter (\<lambda>v. (2::int) ^ e \<le> v) ((g ! row)[col := v])
            = filter (\<lambda>v. 2 ^ e \<le> v) (g ! row)"
      using c cell(3) v big by (intro filter_update_same) auto
    moreover have "filter (\<lambda>v. (2::int) ^ e \<le> v) (concat ?g')
        = filter (\<lambda>v. 2 ^ e \<le> v) (concat (take row g))
          @ filter (\<lambda>v. 2 ^ e \<le> v) ((g ! row)[col := v])
          @ filter (\<lambda>v. 2 ^ e \<le> v) (concat (drop (Suc row) g))"
      by (simp only: concat_update(1) [OF r] filter_append)
    moreover have "filter (\<lambda>v. (2::int) ^ e \<le> v) (concat g)
        = filter (\<lambda>v. 2 ^ e \<le> v) (concat (take row g))
          @ filter (\<lambda>v. 2 ^ e \<le> v) (g ! row)
          @ filter (\<lambda>v. 2 ^ e \<le> v) (concat (drop (Suc row) g))"
      by (subst concat_update(2) [OF r]) (simp only: filter_append)
    ultimately have "countGe e (concat ?g') = countGe e (concat g)"
      unfolding countGe_def by simp
    then show ?thesis using b by (simp add: bounded_def)
  qed
qed

lemma bounded_zero: "bounded [[0, 0, 0, 0], [0, 0, 0, 0], [0, 0, 0, 0], [0, 0, 0, 0]]"
  by (simp add: bounded_def countGe_def)

lemma bounded_cell:
  assumes "bounded g" and "v \<in> set (concat g)"
  shows "v < 2 ^ 18"
proof (rule ccontr)
  assume "\<not> v < 2 ^ 18"
  then have "v \<in> set (filter (\<lambda>v. 2 ^ 18 \<le> v) (concat g))" using assms(2) by simp
  then have "0 < countGe 18 (concat g)"
    unfolding countGe_def by (metis length_pos_if_in_set)
  moreover have "countGe 18 (concat g) \<le> 18 - 18"
    using assms(1) unfolding bounded_def by blast
  ultimately show False by simp
qed

section \<open>The moves on 32-bit cells\<close>

lemma int32_exact:
  assumes "0 \<le> v" and "v < 2 ^ 30"
  shows "int32 (v * 2) = v * 2"
proof -
  have "(v * 2 + 2147483648) mod 4294967296 = v * 2 + 2147483648"
    using assms by (intro mod_pos_pos_trivial) simp_all
  then show ?thesis by (simp add: int32_def)
qed

text \<open>
  Beyond that the 32-bit doubling wraps around, where the doubling on the integers does not:
  two cells of \<open>2 ^ 30\<close> merge into \<open>- 2 ^ 31\<close>.
\<close>

lemma int32_wraps:
  "int32 (1073741824 * 2) = - 2147483648"
  "fst (slideRow32 [1073741824, 1073741824, 0, 0] False) = [- 2147483648, 0, 0, 0]"
  "fst (slideRow [1073741824, 1073741824, 0, 0] False) = [2147483648, 0, 0, 0]"
  by code_simp+

lemma combineStep32_apply:
  "combineStep32 v (newRow, moved) =
     (if v \<noteq> 0 then
        (if newRow \<noteq> [] \<and> last newRow = v
         then (butlast newRow @ [int32 (last newRow * 2)], True)
         else (newRow @ [v], moved))
      else (newRow, moved))"
  by (simp add: combineStep32_def)

text \<open>
  While the values in play are non-negative and add up to less than \<open>2 ^ 30\<close>, no doubling
  leaves the 32-bit range, and the two inner loops agree.
\<close>

lemma fold_combineStep32:
  assumes "\<forall>v\<in>set acc. 0 \<le> v" and "\<forall>v\<in>set xs. 0 \<le> v"
    and "sum_list acc + sum_list xs < 2 ^ 30"
  shows "fold combineStep32 xs (acc, m) = fold combineStep xs (acc, m)"
  using assms
proof (induction xs arbitrary: acc m)
  case Nil
  show ?case by simp
next
  case (Cons x xs)
  have x0: "0 \<le> x" and xs0: "\<forall>v\<in>set xs. 0 \<le> v" using Cons.prems(2) by simp_all
  have acc_sum: "0 \<le> sum_list acc" using Cons.prems(1) by (simp add: sum_list_nonneg)
  have xs_sum: "0 \<le> sum_list xs" using xs0 by (simp add: sum_list_nonneg)
  show ?case
  proof (cases "x \<noteq> 0 \<and> acc \<noteq> [] \<and> last acc = x")
    case True
    then have acc: "acc = butlast acc @ [x]" by (metis append_butlast_last_id)
    have bl0: "\<forall>v\<in>set (butlast acc). 0 \<le> v"
      using Cons.prems(1) by (auto dest: in_set_butlastD)
    have sum_acc: "sum_list acc = sum_list (butlast acc) + x"
      by (subst acc) simp
    have bl_sum: "0 \<le> sum_list (butlast acc)" using bl0 by (simp add: sum_list_nonneg)
    have "x < 2 ^ 30" using Cons.prems(3) sum_acc bl_sum xs_sum x0 by simp
    then have exact: "int32 (x * 2) = x * 2" using x0 by (intro int32_exact)
    have s32: "combineStep32 x (acc, m) = (butlast acc @ [x * 2], True)"
      using True exact by (simp add: combineStep32_apply)
    have s: "combineStep x (acc, m) = (butlast acc @ [x * 2], True)"
      using True by (simp add: combineStep_apply)
    have "fold combineStep32 xs (butlast acc @ [x * 2], True)
            = fold combineStep xs (butlast acc @ [x * 2], True)"
    proof (rule Cons.IH)
      show "\<forall>v\<in>set (butlast acc @ [x * 2]). 0 \<le> v" using bl0 x0 by auto
      show "\<forall>v\<in>set xs. 0 \<le> v" by (rule xs0)
      show "sum_list (butlast acc @ [x * 2]) + sum_list xs < 2 ^ 30"
        using Cons.prems(3) sum_acc by simp
    qed
    then show ?thesis by (simp add: s32 s)
  next
    case False
    then have s32: "combineStep32 x (acc, m) = (if x = 0 then acc else acc @ [x], m)"
      by (auto simp: combineStep32_apply)
    from False have s: "combineStep x (acc, m) = (if x = 0 then acc else acc @ [x], m)"
      by (auto simp: combineStep_apply)
    have "fold combineStep32 xs (if x = 0 then acc else acc @ [x], m)
            = fold combineStep xs (if x = 0 then acc else acc @ [x], m)"
    proof (rule Cons.IH)
      show "\<forall>v\<in>set (if x = 0 then acc else acc @ [x]). 0 \<le> v"
        using Cons.prems(1) x0 by auto
      show "\<forall>v\<in>set xs. 0 \<le> v" by (rule xs0)
      show "sum_list (if x = 0 then acc else acc @ [x]) + sum_list xs < 2 ^ 30"
        using Cons.prems(3) by auto
    qed
    then show ?thesis by (simp add: s32 s)
  qed
qed

lemma fold_combineStep32_nth:
  "length row = BOARD_SIZE \<Longrightarrow>
     fold (\<lambda>col. combineStep32 (row ! col)) [0..<BOARD_SIZE] s = fold combineStep32 row s"
  by (auto simp: BOARD_SIZE_def length4 upt_rec)

lemma slideRow32_eq:
  assumes len: "length row = BOARD_SIZE" and small: "\<forall>v\<in>set row. 0 \<le> v \<and> v < 2 ^ 18"
  shows "slideRow32 row m = slideRow row m"
proof -
  from len obtain a b c d where row: "row = [a, b, c, d]"
    by (auto simp: BOARD_SIZE_def length4)
  have "sum_list row < 2 ^ 30" using small unfolding row by simp
  then have "fold combineStep32 row ([], m) = fold combineStep row ([], m)"
    using small by (intro fold_combineStep32) auto
  then show ?thesis
    by (simp add: slideRow32_def slideRow_def fold_combineStep32_nth [OF len]
          fold_combineStep_nth [OF len])
qed

lemma slidePiecesLeft32_eq:
  assumes wf: "wf_grid g" and small: "smallCells g"
  shows "slidePiecesLeft32 g = slidePiecesLeft g"
proof -
  from wf obtain r0 r1 r2 r3 where g: "g = [r0, r1, r2, r3]"
    and l: "length r0 = BOARD_SIZE" "length r1 = BOARD_SIZE"
           "length r2 = BOARD_SIZE" "length r3 = BOARD_SIZE"
    by (auto simp: wf_grid_iff)
  have s: "\<forall>v\<in>set r0. 0 \<le> v \<and> v < 2 ^ 18" "\<forall>v\<in>set r1. 0 \<le> v \<and> v < 2 ^ 18"
    "\<forall>v\<in>set r2. 0 \<le> v \<and> v < 2 ^ 18" "\<forall>v\<in>set r3. 0 \<le> v \<and> v < 2 ^ 18"
    using small by (simp_all add: smallCells_def g)
  show ?thesis
    unfolding g slidePiecesLeft32_def slidePiecesLeft_def upt_BOARD_SIZE
    by (simp add: slideRow32_eq [OF l(1) s(1)] slideRow32_eq [OF l(2) s(2)]
          slideRow32_eq [OF l(3) s(3)] slideRow32_eq [OF l(4) s(4)] split_beta)
qed

lemma smallCells_rotateBoard:
  "wf_grid g \<Longrightarrow> smallCells g \<Longrightarrow> smallCells (rotateBoard c g)"
  unfolding smallCells_def by (simp only: set_concat_rotateBoard)

lemma slideFor32_eq:
  assumes wf: "wf_grid g" and small: "smallCells g"
  shows "slideFor32 d g = slideFor d g"
proof -
  have wfr: "wf_grid (rotateBoard c h)" if "wf_grid h" for c h
    using that by (rule wf_grid_rotateBoard)
  have L: "slidePiecesLeft32 h = slidePiecesLeft h" if "wf_grid h" "smallCells h" for h
    using that by (rule slidePiecesLeft32_eq)
  have "slidePiecesRight32 g = slidePiecesRight g"
    using wf small
    by (simp add: slidePiecesRight32_def slidePiecesRight_def L wfr smallCells_rotateBoard)
  moreover have "slidePiecesUp32 g = slidePiecesUp g"
    using wf small
    by (simp add: slidePiecesUp32_def slidePiecesUp_def L wfr smallCells_rotateBoard)
  moreover have "slidePiecesDown32 g = slidePiecesDown g"
    using wf small
    by (simp add: slidePiecesDown32_def slidePiecesDown_def L wfr smallCells_rotateBoard)
  ultimately show ?thesis
    using L [OF wf small] by (simp add: slideFor32_def slideFor_def Let_def)
qed

lemma move32_eq:
  assumes "wf_grid (grid b)" and "smallCells (grid b)"
  shows "move32 d (b, r) = move d (b, r)"
  using slideFor32_eq [OF assms, of d] by (simp add: move32_def move_def)

section \<open>The invariant of reachable states\<close>

lemma tile_nonneg: "tile v \<Longrightarrow> 0 \<le> v"
  by (auto simp: tile_def)

lemma tile_bound:
  assumes "tile v" and "v < 2 ^ 18"
  shows "v \<le> 2 ^ 17"
proof (cases "v = 0")
  case True
  then show ?thesis by simp
next
  case False
  with assms(1) obtain k where v: "v = 2 ^ k" by (auto simp: tile_def)
  with assms(2) have "(2::int) ^ k < 2 ^ 18" by simp
  then have "k < 18" by (rule power_less_imp_less_exp [rotated]) simp
  then have "k \<le> 17" by simp
  then have "(2::int) ^ k \<le> 2 ^ 17" by (intro power_increasing) simp_all
  then show ?thesis by (simp add: v)
qed

lemma board_inv_small:
  assumes "board_inv mode b"
  shows "smallCells (grid b)"
  unfolding smallCells_def
proof
  fix v assume v: "v \<in> set (concat (grid b))"
  then have "tile v" using assms by (auto simp: board_inv_def list_all_iff)
  then have "0 \<le> v" by (rule tile_nonneg)
  moreover have "v < 2 ^ 18" using assms v by (intro bounded_cell) (simp_all add: board_inv_def)
  ultimately show "0 \<le> v \<and> v < 2 ^ 18" by simp
qed

lemma bounded_addRandomPiece:
  assumes wf: "wf_grid (grid b)" and bd: "bounded (grid b)"
  shows "bounded (grid (fst (addRandomPiece (b, r))))"
proof (cases "emptySquares (grid b) = []")
  case True
  then have "addRandomPiece (b, r) = (b, r)" by (simp add: addRandomPiece_def)
  then show ?thesis using bd by simp
next
  case False
  from addRandomPiece_spawn [OF wf False refl, of r]
  obtain row col v r' where
    add: "addRandomPiece (b, r) = (b\<lparr>grid := (grid b)[row := (grid b ! row)[col := v]]\<rparr>, r')"
    and cell: "row < BOARD_SIZE" "col < BOARD_SIZE" "grid b ! row ! col = 0"
    and v: "v = fst (getRandomStartingNumber
                   (if winTarget b = 256 then ''E'' else if winTarget b = 512 then ''M'' else ''H'')
                   (snd (chooseRandomNumber 0 (int (length (emptySquares (grid b))) - 1) r)))"
    by metis
  have "v = 2 \<or> v = 4" unfolding v by (rule getRandomStartingNumber_two_or_four)
  then have "bounded ((grid b)[row := (grid b ! row)[col := v]])"
    using wf bd cell by (intro bounded_spawn)
  then show ?thesis by (simp add: add)
qed

lemma board_inv_addRandomPiece:
  assumes "board_inv mode b"
  shows "board_inv mode (fst (addRandomPiece (b, r)))"
proof -
  have wf: "wf_grid (grid b)" and bd: "bounded (grid b)"
    using assms by (simp_all add: board_inv_def)
  have b': "bounded (grid (fst (addRandomPiece (b, r))))"
    using wf bd by (rule bounded_addRandomPiece)
  show ?thesis
  proof (cases "0 \<in> set (concat (grid b))")
    case True
    note g = addRandomPiece_grows [OF wf True, of r]
    have "list_all tile (concat (grid (fst (addRandomPiece (b, r)))))"
      using g(4) assms by (auto simp: board_inv_def list_all_iff)
    then show ?thesis using g(1,2) b' assms by (simp add: board_inv_def)
  next
    case False
    then have "emptySquares (grid b) = []"
      using wf by (simp add: emptySquares_Nil)
    then have "addRandomPiece (b, r) = (b, r)" by (simp add: addRandomPiece_def)
    then show ?thesis using assms by simp
  qed
qed

lemma board_inv_move:
  assumes "board_inv mode b"
  shows "board_inv mode (fst (snd (move d (b, r))))"
proof (cases "slideFor d (grid b)")
  case None
  then show ?thesis using assms by (simp add: move_def)
next
  case (Some p)
  obtain g' moved where p: "p = (g', moved)" by (cases p)
  have wf: "wf_grid (grid b)" and t: "list_all tile (concat (grid b))"
    and bd: "bounded (grid b)"
    using assms by (simp_all add: board_inv_def)
  have res: "slideFor d (grid b) = Some (g', moved)" using Some p by simp
  have slid: "board_inv mode (b\<lparr>grid := g'\<rparr>)"
    using slideFor_res [OF wf res] tile_slideFor [OF wf t res] bounded_slideFor [OF wf bd res]
      assms
    by (simp add: board_inv_def)
  show ?thesis
  proof (cases "g' = grid b")
    case True
    then show ?thesis using move_after_slide(3) [OF wf res] assms by simp
  next
    case False
    then show ?thesis
      using move_after_slide(2) [OF wf res] board_inv_addRandomPiece [OF slid, of r] by simp
  qed
qed

text \<open>On a board that satisfies the invariant no doubling overflows: the two moves agree.\<close>

lemma board_inv_move32_eq:
  assumes "board_inv mode b"
  shows "move32 d (b, r) = move d (b, r)"
  using assms board_inv_small [OF assms] by (intro move32_eq) (simp_all add: board_inv_def)

lemma board_inv_move32:
  assumes "board_inv mode b"
  shows "board_inv mode (fst (snd (move32 d (b, r))))"
  using board_inv_move [OF assms, of d r] by (simp add: board_inv_move32_eq [OF assms])

lemma board_inv_Board: "board_inv mode (fst (Board mode r))"
proof -
  define b0 where "b0 = \<lparr>grid = replicate BOARD_SIZE (replicate BOARD_SIZE (0::int)),
         winTarget = (if mode = ''E'' then 256 else if mode = ''M'' then 512 else 1024)\<rparr>"
  have g0: "grid b0 = [[0, 0, 0, 0], [0, 0, 0, 0], [0, 0, 0, 0], [0, 0, 0, 0]]"
    by (simp add: b0_def BOARD_SIZE_def numeral_eq_Suc)
  have "board_inv mode b0"
    unfolding board_inv_def g0 by (simp add: wf_grid_cellsI bounded_zero) (simp add: b0_def)
  then have "board_inv mode (fst (addRandomPiece (b0, r)))"
    by (rule board_inv_addRandomPiece)
  then have "board_inv mode (fst (addRandomPiece (fst (addRandomPiece (b0, r)),
                                                  snd (addRandomPiece (b0, r)))))"
    by (rule board_inv_addRandomPiece)
  then show ?thesis by (simp add: Board_def b0_def)
qed

lemma reachable_board_inv:
  assumes "reachable mode s"
  shows "board_inv mode (fst s)"
  using assms
proof (induction rule: reachable.induct)
  case (constructed r)
  show ?case by (rule board_inv_Board)
next
  case (moved s d)
  then show ?case using board_inv_move32 [of mode "fst s" d "snd s"] by simp
next
  case (spawned s)
  then show ?case using board_inv_addRandomPiece [of mode "fst s" "snd s"] by simp
qed

text \<open>
  C9: every state that the program reaches, with its 32-bit cells, has a 4 by 4 grid whose
  cells are 0 or a positive power of 2, and its win target is the one the constructor
  derived from the mode, so one of 256, 512 and 1024, unchanged by moves and spawns. No cell
  exceeds \<open>2 ^ 17\<close>, so that no doubling of a move overflows: on a reachable state the move on
  32-bit cells is the move on the integers.
\<close>

theorem reachable_invariant:
  assumes "reachable mode s"
  shows "wf_grid (grid (fst s))
       \<and> list_all tile (concat (grid (fst s)))
       \<and> winTarget (fst s) = (if mode = ''E'' then 256 else if mode = ''M'' then 512 else 1024)
       \<and> winTarget (fst s) \<in> {256, 512, 1024}
       \<and> list_all (\<lambda>v. v \<le> 2 ^ 17) (concat (grid (fst s)))
       \<and> (\<forall>d. move32 d s = move d s)"
proof -
  have inv: "board_inv mode (fst s)" using assms by (rule reachable_board_inv)
  have "v \<le> 2 ^ 17" if "v \<in> set (concat (grid (fst s)))" for v
  proof -
    have "tile v" using inv that by (auto simp: board_inv_def list_all_iff)
    moreover have "v < 2 ^ 18"
      using board_inv_small [OF inv] that unfolding smallCells_def by blast
    ultimately show ?thesis by (rule tile_bound)
  qed
  then have "list_all (\<lambda>v. v \<le> 2 ^ 17) (concat (grid (fst s)))"
    by (simp add: list_all_iff)
  moreover have "\<forall>d. move32 d s = move d s"
    using board_inv_move32_eq [OF inv, of _ "snd s"] by simp
  ultimately show ?thesis using inv by (simp add: board_inv_def)
qed

theorem reachable_invariant_witness:
  "reachable ''E'' (snd (move32 CHR ''l'' (Board ''E'' (\<lambda>n. 5))))
   \<and> grid (fst (snd (move32 CHR ''l'' (Board ''E'' (\<lambda>n. 5)))))
       = [[0, 0, 0, 0], [8, 0, 4, 0], [0, 0, 0, 0], [0, 0, 0, 0]]
   \<and> list_all tile (concat (grid (fst (snd (move32 CHR ''l'' (Board ''E'' (\<lambda>n. 5)))))))
   \<and> winTarget (fst (snd (move32 CHR ''l'' (Board ''E'' (\<lambda>n. 5))))) = 256"
proof -
  have r: "reachable ''E'' (snd (move32 CHR ''l'' (Board ''E'' (\<lambda>n. 5))))"
    by (intro reachable.moved reachable.constructed)
  have g: "grid (fst (snd (move32 CHR ''l'' (Board ''E'' (\<lambda>n. 5)))))
       = [[0, 0, 0, 0], [8, 0, 4, 0], [0, 0, 0, 0], [0, 0, 0, 0]]"
    by code_simp
  note inv = reachable_invariant [OF r]
  have t: "list_all tile (concat (grid (fst (snd (move32 CHR ''l'' (Board ''E'' (\<lambda>n. 5)))))))"
    using inv by blast
  have wt: "winTarget (fst (snd (move32 CHR ''l'' (Board ''E'' (\<lambda>n. 5))))) = 256"
    using inv by simp
  show ?thesis by (intro conjI r g t wt)
qed

section \<open>The end of the game on reachable states\<close>

lemma move_keeps_nonzero:
  assumes wf: "wf_grid (grid b)" and some: "\<exists>v\<in>set (concat (grid b)). v \<noteq> 0"
  shows "\<exists>v\<in>set (concat (grid (fst (snd (move d (b, r)))))). v \<noteq> 0"
proof (cases "slideFor d (grid b)")
  case None
  then show ?thesis using some by (simp add: move_def)
next
  case (Some p)
  obtain g' m where p: "p = (g', m)" by (cases p)
  have res: "slideFor d (grid b) = Some (g', m)" using Some p by simp
  have some': "\<exists>v\<in>set (concat g'). v \<noteq> 0"
    using wf some res by (rule slideFor_keeps_nonzero)
  have wf': "wf_grid g'" using slideFor_res [OF wf res] by simp
  show ?thesis
  proof (cases "g' = grid b")
    case True
    then show ?thesis using move_after_slide(3) [OF wf res] some by simp
  next
    case False
    have "\<exists>v\<in>set (concat (grid (fst (addRandomPiece (b\<lparr>grid := g'\<rparr>, r))))). v \<noteq> 0"
      using wf' some' by (intro addRandomPiece_keeps_nonzero) simp_all
    then show ?thesis using move_after_slide(2) [OF wf res False] by simp
  qed
qed

lemma Board_nonzero: "\<exists>v\<in>set (concat (grid (fst (Board mode r)))). v \<noteq> 0"
proof -
  define b0 where "b0 = \<lparr>grid = replicate BOARD_SIZE (replicate BOARD_SIZE (0::int)),
         winTarget = (if mode = ''E'' then 256 else if mode = ''M'' then 512 else 1024)\<rparr>"
  have g0: "grid b0 = [[0, 0, 0, 0], [0, 0, 0, 0], [0, 0, 0, 0], [0, 0, 0, 0]]"
    by (simp add: b0_def BOARD_SIZE_def numeral_eq_Suc)
  have wf0: "wf_grid (grid b0)" unfolding g0 by (rule wf_grid_cellsI)
  have z0: "0 \<in> set (concat (grid b0))" by (simp add: g0)
  note one = addRandomPiece_grows [OF wf0 z0, of r]
  have "nz (concat (grid (fst (addRandomPiece (b0, r))))) \<noteq> []"
    using one(3) by (metis length_0_conv nat.distinct(1))
  then have "\<exists>v\<in>set (concat (grid (fst (addRandomPiece (b0, r))))). v \<noteq> 0"
    by (simp add: filter_empty_conv)
  then have "\<exists>v\<in>set (concat (grid (fst (addRandomPiece
                (fst (addRandomPiece (b0, r)), snd (addRandomPiece (b0, r))))))). v \<noteq> 0"
    using one(1) by (rule addRandomPiece_keeps_nonzero [rotated])
  then show ?thesis by (simp add: Board_def b0_def)
qed

text \<open>Every reachable grid has a non-zero cell: the grid of sixteen zeros does not occur.\<close>

lemma reachable_nonzero:
  assumes "reachable mode s"
  shows "\<exists>v\<in>set (concat (grid (fst s))). v \<noteq> 0"
  using assms
proof (induction rule: reachable.induct)
  case (constructed r)
  show ?case by (rule Board_nonzero)
next
  case (moved s d)
  have inv: "board_inv mode (fst s)" using moved.hyps by (rule reachable_board_inv)
  then have wf: "wf_grid (grid (fst s))" by (simp add: board_inv_def)
  have "move32 d s = move d (fst s, snd s)"
    using board_inv_move32_eq [OF inv, of d "snd s"] by simp
  then show ?case using move_keeps_nonzero [OF wf moved.IH, of d "snd s"] by simp
next
  case (spawned s)
  have inv: "board_inv mode (fst s)" using spawned.hyps by (rule reachable_board_inv)
  then have wf: "wf_grid (grid (fst s))" by (simp add: board_inv_def)
  show ?case
    using addRandomPiece_keeps_nonzero [OF wf spawned.IH, of "snd s"] by simp
qed

text \<open>
  C3: on every reachable state \<open>isGameOver\<close> is true exactly when no cell is empty, no two
  cells next to each other in a row are equal and no two cells next to each other in a column
  are equal; and that is exactly when no \<open>move\<close> in any of the four directions, in either
  case, returns true, for the move on 32-bit cells and for the move on the integers alike.
\<close>

theorem isGameOver_spec:
  assumes "reachable mode (b, r)"
  shows "isGameOver (grid b) =
           ((\<forall>i<BOARD_SIZE. \<forall>j<BOARD_SIZE. grid b ! i ! j \<noteq> 0)
            \<and> (\<forall>i<BOARD_SIZE. \<forall>j<BOARD_SIZE - 1. grid b ! i ! j \<noteq> grid b ! i ! (j + 1))
            \<and> (\<forall>i<BOARD_SIZE - 1. \<forall>j<BOARD_SIZE. grid b ! i ! j \<noteq> grid b ! (i + 1) ! j))
       \<and> isGameOver (grid b) = (\<forall>d\<in>set ''LRUDlrud''. \<not> fst (move32 d (b, r)))
       \<and> isGameOver (grid b) = (\<forall>d\<in>set ''LRUDlrud''. \<not> fst (move d (b, r)))"
proof -
  have inv: "board_inv mode b" using reachable_board_inv [OF assms] by simp
  then have wf: "wf_grid (grid b)" by (simp add: board_inv_def)
  have some: "\<exists>v\<in>set (concat (grid b)). v \<noteq> 0" using reachable_nonzero [OF assms] by simp
  have m: "isGameOver (grid b) = (\<forall>d\<in>set ''LRUDlrud''. \<not> fst (move d (b, r)))"
    using wf some by (rule no_move_terminal)
  have "move32 d (b, r) = move d (b, r)" for d
    using inv by (rule board_inv_move32_eq)
  then have "isGameOver (grid b) = (\<forall>d\<in>set ''LRUDlrud''. \<not> fst (move32 d (b, r)))"
    using m by simp
  then show ?thesis using m isGameOver_iff [of "grid b"] by blast
qed

lemma reachable_spawns:
  assumes "reachable mode s"
  shows "reachable mode ((addRandomPiece ^^ n) s)"
  by (induction n) (simp_all add: assms reachable.spawned)

theorem isGameOver_spec_witness:
  "reachable ''E'' (Board ''E'' (\<lambda>n. 5))
   \<and> grid (fst (Board ''E'' (\<lambda>n. 5))) = [[0, 0, 0, 0], [0, 4, 4, 0], [0, 0, 0, 0], [0, 0, 0, 0]]
   \<and> fst (move32 CHR ''l'' (Board ''E'' (\<lambda>n. 5)))
   \<and> \<not> isGameOver (grid (fst (Board ''E'' (\<lambda>n. 5))))
   \<and> reachable ''H'' ((addRandomPiece ^^ 14)
         (Board ''H'' (\<lambda>n. if n \<in> {3, 7, 9, 13, 19, 23, 25, 29} then 9 else 0)))
   \<and> grid (fst ((addRandomPiece ^^ 14)
         (Board ''H'' (\<lambda>n. if n \<in> {3, 7, 9, 13, 19, 23, 25, 29} then 9 else 0))))
       = [[2, 4, 2, 4], [4, 2, 4, 2], [2, 4, 2, 4], [4, 2, 4, 2]]
   \<and> isGameOver (grid (fst ((addRandomPiece ^^ 14)
         (Board ''H'' (\<lambda>n. if n \<in> {3, 7, 9, 13, 19, 23, 25, 29} then 9 else 0)))))
   \<and> \<not> fst (move32 CHR ''U'' ((addRandomPiece ^^ 14)
         (Board ''H'' (\<lambda>n. if n \<in> {3, 7, 9, 13, 19, 23, 25, 29} then 9 else 0))))"
proof -
  have r: "reachable ''E'' (fst (Board ''E'' (\<lambda>n. 5)), snd (Board ''E'' (\<lambda>n. 5)))"
    using reachable.constructed [of "''E''" "\<lambda>n. 5"] by simp
  have g: "grid (fst (Board ''E'' (\<lambda>n. 5)))
             = [[0, 0, 0, 0], [0, 4, 4, 0], [0, 0, 0, 0], [0, 0, 0, 0]]"
    by code_simp
  have mv: "fst (move32 CHR ''l'' (fst (Board ''E'' (\<lambda>n. 5)), snd (Board ''E'' (\<lambda>n. 5))))"
    by code_simp
  have "isGameOver (grid (fst (Board ''E'' (\<lambda>n. 5))))
          = (\<forall>d\<in>set ''LRUDlrud''. \<not> fst (move32 d (fst (Board ''E'' (\<lambda>n. 5)),
                                                       snd (Board ''E'' (\<lambda>n. 5)))))"
    using isGameOver_spec [OF r] by blast
  then have open_game: "\<not> isGameOver (grid (fst (Board ''E'' (\<lambda>n. 5))))"
    using mv by auto
  define s where "s = (addRandomPiece ^^ 14)
         (Board ''H'' (\<lambda>n. if n \<in> {3, 7, 9, 13, 19, 23, 25, 29} then 9 else (0::nat)))"
  have rs: "reachable ''H'' (fst s, snd s)"
    unfolding s_def using reachable_spawns [OF reachable.constructed] by simp
  have gs: "grid (fst s) = [[2, 4, 2, 4], [4, 2, 4, 2], [2, 4, 2, 4], [4, 2, 4, 2]]"
    unfolding s_def by code_simp
  have over: "isGameOver (grid (fst s))"
    unfolding gs by (simp add: isGameOver_cells)
  have "isGameOver (grid (fst s))
          = (\<forall>d\<in>set ''LRUDlrud''. \<not> fst (move32 d (fst s, snd s)))"
    using isGameOver_spec [OF rs] by blast
  then have stuck: "\<not> fst (move32 CHR ''U'' s)"
    using over by simp
  show ?thesis using r g mv open_game rs gs over stuck unfolding s_def by simp
qed

end
